theory Spec2Isabelle
  imports Main "HOL-Library.Sublist"
begin

section \<open>Python strings\<close>

text \<open>
  Both scripts work on Python \<open>str\<close> values with \<open>str.count\<close>, \<open>str.replace\<close>,
  slicing and one regular expression. A text is a \<open>string\<close>; the three characters the
  scripts single out are named.
\<close>

definition dq :: char where
  "dq = CHR 0x22"

definition backtick :: char where
  "backtick = CHR 0x60"

definition CR :: char where
  "CR = CHR 0x0D"

definition LF :: char where
  "LF = CHR 0x0A"

text \<open>The Python literal \<open>'"teamId"'\<close> is \<open>quoted ''teamId''\<close>.\<close>

definition quoted :: "string \<Rightarrow> string" where
  "quoted w = dq # w @ [dq]"

text \<open>
  \<open>s.count(sub)\<close>: the number of non-overlapping occurrences of \<open>sub\<close> in \<open>s\<close>, found
  from the left; for the empty \<open>sub\<close> Python answers \<open>len(s) + 1\<close>.
\<close>

function py_count :: "string \<Rightarrow> string \<Rightarrow> nat" where
  "py_count s sub =
     (if sub = [] then length s + 1
      else if s = [] then 0
      else if prefix sub s then 1 + py_count (drop (length sub) s) sub
      else py_count (tl s) sub)"
  by pat_completeness auto
termination
  by (relation "measure (\<lambda>(s, sub). length s)") auto

text \<open>
  \<open>s.replace(old, new)\<close>: every non-overlapping occurrence of \<open>old\<close>, found from the
  left, becomes \<open>new\<close>; for the empty \<open>old\<close> Python puts \<open>new\<close> before every character
  and at the end.
\<close>

function py_replace :: "string \<Rightarrow> string \<Rightarrow> string \<Rightarrow> string" where
  "py_replace s old new =
     (if old = [] then (case s of [] \<Rightarrow> new | c # cs \<Rightarrow> new @ c # py_replace cs old new)
      else if s = [] then []
      else if prefix old s then new @ py_replace (drop (length old) s) old new
      else hd s # py_replace (tl s) old new)"
  by pat_completeness auto
termination
  by (relation "measure (\<lambda>(s, old, new). length s)") auto

declare py_count.simps [simp del] py_replace.simps [simp del]

section \<open>The two mapping tables\<close>

text \<open>
  \<open>COLUMN_MAPPINGS\<close> of \<open>fix-handlers-snake-case.py\<close> is a dict; \<open>.items()\<close> walks it in
  insertion order, so it is the list of its entries in the order they are written.
\<close>

definition COLUMN_MAPPINGS :: "(string \<times> string) list" where
  "COLUMN_MAPPINGS =
    [(quoted ''teamId'', ''team_id''),
     (quoted ''userId'', ''user_id''),
     (quoted ''scheduledFor'', ''scheduled_for''),
     (quoted ''publishedAt'', ''published_at''),
     (quoted ''createdAt'', ''created_at''),
     (quoted ''updatedAt'', ''updated_at''),
     (quoted ''lastPublishJobId'', ''last_publish_job_id''),
     (quoted ''lastPublishStatus'', ''last_publish_status''),
     (quoted ''lastPublishError'', ''last_publish_error''),
     (quoted ''lastPublishAttemptAt'', ''last_publish_attempt_at''),
     (quoted ''providerId'', ''provider_id''),
     (quoted ''imageUrl'', ''image_url'')]"

text \<open>\<open>REPLACEMENTS\<close> of \<open>update_sql_columns.py\<close>, a list of pairs.\<close>

definition REPLACEMENTS :: "(string \<times> string) list" where
  "REPLACEMENTS =
    [(quoted ''teamId'', ''team_id''),
     (quoted ''userId'', ''user_id''),
     (quoted ''providerId'', ''provider_id''),
     (quoted ''scheduledFor'', ''scheduled_for''),
     (quoted ''publishedAt'', ''published_at''),
     (quoted ''createdAt'', ''created_at''),
     (quoted ''updatedAt'', ''updated_at''),
     (quoted ''lastPublishJobId'', ''last_publish_job_id''),
     (quoted ''lastPublishStatus'', ''last_publish_status''),
     (quoted ''lastPublishError'', ''last_publish_error''),
     (quoted ''lastPublishAttemptAt'', ''last_publish_attempt_at''),
     (quoted ''imageUrl'', ''image_url'')]"

section \<open>Files, exceptions and output\<close>

type_synonym path = string

text \<open>
  The exceptions the runs can meet. \<open>FileNotFoundError\<close>, \<open>PermissionError\<close> and
  \<open>UnicodeDecodeError\<close> are subclasses of \<open>Exception\<close>; \<open>SystemExit\<close>, raised by
  \<open>sys.exit\<close>, is not.
\<close>

datatype exn =
    FileNotFoundError path
  | PermissionError path
  | UnicodeDecodeError
  | SystemExit nat

text \<open>
  What the scripts print, one constructor per \<open>print\<close> call:
  \<^item> \<open>Processing p\<close>: \<^verbatim>\<open>Processing {filepath}...\<close> (both scripts);
  \<^item> \<open>Replaced old new n\<close>: \<^verbatim>\<open>  Replaced {old_name} -> {new_name} ({count} times)\<close>;
  \<^item> \<open>Updated p n\<close>: \<^verbatim>\<open>(check mark) Updated {filepath} ({replacements_made} replacements)\<close>;
  \<^item> \<open>NotFoundSkipping p\<close>: \<^verbatim>\<open>Warning: {filepath} not found, skipping...\<close>;
  \<^item> \<open>ErrorProcessing p e\<close>: \<^verbatim>\<open>Error processing {filepath}: {e}\<close>;
  \<^item> \<open>FileNotFoundSkipping\<close>: \<^verbatim>\<open>  Warning: File not found, skipping\<close>;
  \<^item> \<open>Made n\<close>: \<^verbatim>\<open>  (check mark) Made {count} replacements\<close>;
  \<^item> \<open>Complete n\<close>: \<^verbatim>\<open>Complete! Made {total} total replacements\<close>;
  \<^item> \<open>Hints\<close>: the fixed closing lines (where the backups are, how to verify, how to
    restore);
  \<^item> \<open>Traceback e\<close>: what the interpreter writes to the standard error stream when
    the exception \<open>e\<close> leaves the script uncaught.
\<close>

datatype message =
    Processing path
  | Replaced string string nat
  | Updated path nat
  | NotFoundSkipping path
  | ErrorProcessing path exn
  | FileNotFoundSkipping
  | Made nat
  | Complete nat
  | Hints
  | Traceback exn

text \<open>
  A file holds its bytes and says whether this process may open it for reading and for
  writing. The world is the file system and the two output streams.
\<close>

record filenode =
  contents :: string
  readable :: bool
  writable :: bool

record world =
  files :: "path \<Rightarrow> filenode option"
  stdout :: "message list"
  stderr :: "message list"

definition print :: "message \<Rightarrow> world \<Rightarrow> world" where
  "print m w = w\<lparr>stdout := stdout w @ [m]\<rparr>"

text \<open>
  Text mode with the default \<open>newline=None\<close> reads with universal newlines: \<open>\r\n\<close> and a
  lone \<open>\r\<close> both arrive as \<open>\n\<close>.
\<close>

fun universal_newlines :: "string \<Rightarrow> string" where
  "universal_newlines [] = []"
| "universal_newlines [c] = (if c = CR then [LF] else [c])"
| "universal_newlines (c # d # ds) =
     (if c = CR \<and> d = LF then LF # universal_newlines ds
      else if c = CR then LF # universal_newlines (d # ds)
      else c # universal_newlines (d # ds))"

text \<open>
  Text mode decodes the bytes of the file, strictly, with the default encoding, UTF-8:
  bytes that are not well-formed UTF-8 raise \<open>UnicodeDecodeError\<close>. The decoder is the
  automaton of the standard: at a character boundary a byte below \<open>0x80\<close> is a character
  of its own and a lead byte from \<open>0xC2\<close> to \<open>0xF4\<close> asks for one, two or three
  continuation bytes, the first of them in a range that rules out overlong forms,
  surrogates and code points beyond \<open>U+10FFFF\<close>.

  A decoded text is kept as its UTF-8 bytes. The scripts only look for ASCII characters
  (the tokens, the backtick, the line ends), and an ASCII byte of well-formed UTF-8 is
  always a character of its own, so counting, replacing and matching give the same on
  the bytes as on the code points; writing the text encodes it back to the same bytes.
\<close>

datatype utf8_state = Boundary | Continuation nat nat nat

definition utf8_step :: "utf8_state \<Rightarrow> char \<Rightarrow> utf8_state option" where
  "utf8_step st c =
     (let b = (of_char c :: nat)
      in case st of
           Boundary \<Rightarrow>
             if b < 0x80 then Some Boundary
             else if 0xC2 \<le> b \<and> b \<le> 0xDF then Some (Continuation 1 0x80 0xBF)
             else if b = 0xE0 then Some (Continuation 2 0xA0 0xBF)
             else if b = 0xED then Some (Continuation 2 0x80 0x9F)
             else if 0xE1 \<le> b \<and> b \<le> 0xEF then Some (Continuation 2 0x80 0xBF)
             else if b = 0xF0 then Some (Continuation 3 0x90 0xBF)
             else if b = 0xF4 then Some (Continuation 3 0x80 0x8F)
             else if 0xF1 \<le> b \<and> b \<le> 0xF3 then Some (Continuation 3 0x80 0xBF)
             else None
         | Continuation k lo hi \<Rightarrow>
             if 0x80 \<le> b \<and> b \<le> 0xBF \<and> lo \<le> b \<and> b \<le> hi
             then (if k \<le> 1 then Some Boundary else Some (Continuation (k - 1) 0x80 0xBF))
             else None)"

fun utf8_run :: "utf8_state \<Rightarrow> string \<Rightarrow> utf8_state option" where
  "utf8_run st [] = Some st"
| "utf8_run st (c # cs) =
     (case utf8_step st c of None \<Rightarrow> None | Some st' \<Rightarrow> utf8_run st' cs)"

definition utf8_valid :: "string \<Rightarrow> bool" where
  "utf8_valid bytes = (utf8_run Boundary bytes = Some Boundary)"

text \<open>\<^verbatim>\<open>with open(p, 'r') as f: content = f.read()\<close>\<close>

definition read_text :: "path \<Rightarrow> world \<Rightarrow> exn + string" where
  "read_text p w =
     (case files w p of
        None \<Rightarrow> Inl (FileNotFoundError p)
      | Some f \<Rightarrow>
          if \<not> readable f then Inl (PermissionError p)
          else if \<not> utf8_valid (contents f) then Inl UnicodeDecodeError
          else Inr (universal_newlines (contents f)))"

text \<open>
  \<^verbatim>\<open>with open(p, 'w') as f: f.write(text)\<close>: the file is created when it is missing and
  overwritten when it is there; \<open>\n\<close> is written as it is (the line separator of the
  POSIX systems the scripts' shell hints are for).
\<close>

definition write_text :: "path \<Rightarrow> string \<Rightarrow> world \<Rightarrow> exn + world" where
  "write_text p text w =
     (case files w p of
        None \<Rightarrow>
          Inr (w\<lparr>files := (files w)(p \<mapsto> \<lparr>contents = text, readable = True, writable = True\<rparr>)\<rparr>)
      | Some f \<Rightarrow>
          if writable f then Inr (w\<lparr>files := (files w)(p \<mapsto> f\<lparr>contents := text\<rparr>)\<rparr>)
          else Inl (PermissionError p))"

text \<open>The hard-coded list of both \<open>main\<close> functions.\<close>

definition FILES :: "path list" where
  "FILES =
    [''internal/handlers/handlers.go'',
     ''internal/handlers/scheduled_posts_worker.go'',
     ''internal/handlers/realtime_ws.go'']"


section \<open>fix-handlers-snake-case.py: unrestricted mode\<close>

text \<open>
  The \<open>for\<close> loop of \<open>update_file\<close> over the table, with its state
  \<open>(updated_content, replacements_made)\<close> and the world it prints to.
\<close>

fun update_loop ::
  "(string \<times> string) list \<Rightarrow> string \<Rightarrow> nat \<Rightarrow> world \<Rightarrow> string \<times> nat \<times> world" where
  "update_loop [] updated_content replacements_made w = (updated_content, replacements_made, w)"
| "update_loop ((old_name, new_name) # rest) updated_content replacements_made w =
     (let count = py_count updated_content old_name
      in if count > 0
         then update_loop rest (py_replace updated_content old_name new_name)
                (replacements_made + count) (print (Replaced old_name new_name count) w)
         else update_loop rest updated_content replacements_made w)"

definition update_file :: "path \<Rightarrow> world \<Rightarrow> (exn + nat) \<times> world" where
  "update_file filepath w0 =
     (let w1 = print (Processing filepath) w0
      in case read_text filepath w1 of
           Inl e \<Rightarrow> (Inl e, w1)
         | Inr content \<Rightarrow>
             (case write_text (filepath @ ''.bak'') content w1 of
                Inl e \<Rightarrow> (Inl e, w1)
              | Inr w2 \<Rightarrow>
                  (case update_loop COLUMN_MAPPINGS content 0 w2 of
                     (updated_content, replacements_made, w3) \<Rightarrow>
                       (case write_text filepath updated_content w3 of
                          Inl e \<Rightarrow> (Inl e, w3)
                        | Inr w4 \<Rightarrow>
                            (Inr replacements_made,
                             print (Updated filepath replacements_made) w4)))))"

text \<open>
  The loop of \<open>main\<close>: \<open>FileNotFoundError\<close> is caught and the loop goes on, any other
  \<open>Exception\<close> is printed and \<open>sys.exit(1)\<close> raises \<open>SystemExit\<close>.
\<close>

fun fix_handlers_loop :: "path list \<Rightarrow> nat \<Rightarrow> world \<Rightarrow> (exn + nat) \<times> world" where
  "fix_handlers_loop [] total_replacements w = (Inr total_replacements, w)"
| "fix_handlers_loop (filepath # rest) total_replacements w =
     (case update_file filepath w of
        (Inr count, w') \<Rightarrow> fix_handlers_loop rest (total_replacements + count) w'
      | (Inl (FileNotFoundError p), w') \<Rightarrow>
          fix_handlers_loop rest total_replacements (print (NotFoundSkipping filepath) w')
      | (Inl (SystemExit n), w') \<Rightarrow> (Inl (SystemExit n), w')
      | (Inl e, w') \<Rightarrow> (Inl (SystemExit 1), print (ErrorProcessing filepath e) w'))"

definition fix_handlers_main_on :: "path list \<Rightarrow> world \<Rightarrow> (exn + unit) \<times> world" where
  "fix_handlers_main_on fs w =
     (case fix_handlers_loop fs 0 w of
        (Inl e, w') \<Rightarrow> (Inl e, w')
      | (Inr total_replacements, w') \<Rightarrow>
          (Inr (), print Hints (print (Complete total_replacements) w')))"

definition fix_handlers_main :: "world \<Rightarrow> (exn + unit) \<times> world" where
  "fix_handlers_main = fix_handlers_main_on FILES"

section \<open>update_sql_columns.py: delimited mode\<close>

text \<open>
  \<open>re.finditer\<close> with the pattern of \<open>extract_sql_queries\<close> (a backtick, any run of
  characters that are not backticks, a backtick; \<open>DOTALL\<close> changes nothing, the pattern
  has no dot): from the position reached, the next match opens at the next backtick
  that has a backtick after it and closes at that one; the search goes on behind the
  match. \<open>pos\<close> is the offset of \<open>s\<close> in the whole content.
\<close>

function scan_queries :: "nat \<Rightarrow> string \<Rightarrow> (nat \<times> nat \<times> string) list" where
  "scan_queries pos s =
     (case dropWhile (\<lambda>c. c \<noteq> backtick) s of
        [] \<Rightarrow> []
      | b1 # r1 \<Rightarrow>
          (case dropWhile (\<lambda>c. c \<noteq> backtick) r1 of
             [] \<Rightarrow> []
           | b2 # r2 \<Rightarrow>
               (let start = pos + length (takeWhile (\<lambda>c. c \<noteq> backtick) s);
                    sql = takeWhile (\<lambda>c. c \<noteq> backtick) r1;
                    en = start + length sql + 2
                in (start, en, sql) # scan_queries en r2)))"
  by pat_completeness auto
termination
proof (relation "measure (\<lambda>(pos, s). length s)")
  show "wf (measure (\<lambda>(pos, s). length s))"
    by simp
next
  fix pos :: nat and s :: string and b1 r1 b2 r2 start sql en
  assume a: "dropWhile (\<lambda>c. c \<noteq> backtick) s = b1 # r1"
    and b: "dropWhile (\<lambda>c. c \<noteq> backtick) r1 = b2 # r2"
  have "length r2 < length r1"
    using length_dropWhile_le [of "\<lambda>c. c \<noteq> backtick" r1] b by simp
  moreover have "length r1 < length s"
    using length_dropWhile_le [of "\<lambda>c. c \<noteq> backtick" s] a by simp
  ultimately show "((en, r2), (pos, s)) \<in> measure (\<lambda>(pos, s). length s)"
    by simp
qed

declare scan_queries.simps [simp del]

definition extract_sql_queries :: "string \<Rightarrow> (nat \<times> nat \<times> string) list" where
  "extract_sql_queries content = scan_queries 0 content"

text \<open>
  The inner loop of \<open>update_sql_in_content\<close> over the table, with its state
  \<open>(updated_sql, replacements_made)\<close>.
\<close>

fun sql_loop :: "(string \<times> string) list \<Rightarrow> string \<Rightarrow> nat \<Rightarrow> string \<times> nat" where
  "sql_loop [] updated_sql replacements_made = (updated_sql, replacements_made)"
| "sql_loop ((old_name, new_name) # rest) updated_sql replacements_made =
     (let count = py_count updated_sql old_name
      in if count > 0
         then sql_loop rest (py_replace updated_sql old_name new_name) (replacements_made + count)
         else sql_loop rest updated_sql replacements_made)"

text \<open>
  The outer loop over the reversed matches, with its state
  \<open>(content, replacements_made)\<close>; \<open>content[:start]\<close> is \<open>take start content\<close> and
  \<open>content[end:]\<close> is \<open>drop en content\<close>. The table is a parameter; the script's is
  \<open>REPLACEMENTS\<close>.
\<close>

fun queries_loop ::
  "(string \<times> string) list \<Rightarrow> (nat \<times> nat \<times> string) list \<Rightarrow> string \<Rightarrow> nat \<Rightarrow> string \<times> nat" where
  "queries_loop table [] content replacements_made = (content, replacements_made)"
| "queries_loop table ((start, en, sql) # rest) content replacements_made =
     (case sql_loop table sql replacements_made of
        (updated_sql, replacements_made') \<Rightarrow>
          queries_loop table rest
            (if updated_sql \<noteq> sql
             then take start content @ [backtick] @ updated_sql @ [backtick] @ drop en content
             else content)
            replacements_made')"

definition update_sql_with :: "(string \<times> string) list \<Rightarrow> string \<Rightarrow> string \<times> nat" where
  "update_sql_with table content =
     queries_loop table (rev (extract_sql_queries content)) content 0"

definition update_sql_in_content :: "string \<Rightarrow> string \<times> nat" where
  "update_sql_in_content content = update_sql_with REPLACEMENTS content"

definition process_file :: "path \<Rightarrow> world \<Rightarrow> (exn + nat) \<times> world" where
  "process_file filepath w0 =
     (let w1 = print (Processing filepath) w0
      in case read_text filepath w1 of
           Inl (FileNotFoundError p) \<Rightarrow> (Inr 0, print FileNotFoundSkipping w1)
         | Inl e \<Rightarrow> (Inl e, w1)
         | Inr content \<Rightarrow>
             (case write_text (filepath @ ''.bak'') content w1 of
                Inl e \<Rightarrow> (Inl e, w1)
              | Inr w2 \<Rightarrow>
                  (case update_sql_in_content content of
                     (updated_content, count) \<Rightarrow>
                       (case write_text filepath updated_content w2 of
                          Inl e \<Rightarrow> (Inl e, w2)
                        | Inr w3 \<Rightarrow> (Inr count, print (Made count) w3)))))"

text \<open>The loop of \<open>main\<close>: nothing is caught, an exception of \<open>process_file\<close> ends it.\<close>

fun update_sql_loop :: "path list \<Rightarrow> nat \<Rightarrow> world \<Rightarrow> (exn + nat) \<times> world" where
  "update_sql_loop [] total' w = (Inr total', w)"
| "update_sql_loop (filepath # rest) total' w =
     (case process_file filepath w of
        (Inl e, w') \<Rightarrow> (Inl e, w')
      | (Inr count, w') \<Rightarrow> update_sql_loop rest (total' + count) w')"

definition update_sql_main_on :: "path list \<Rightarrow> world \<Rightarrow> (exn + unit) \<times> world" where
  "update_sql_main_on fs w =
     (case update_sql_loop fs 0 w of
        (Inl e, w') \<Rightarrow> (Inl e, w')
      | (Inr total', w') \<Rightarrow> (Inr (), print Hints (print (Complete total') w')))"

definition update_sql_main :: "world \<Rightarrow> (exn + unit) \<times> world" where
  "update_sql_main = update_sql_main_on FILES"

section \<open>Auxiliary notions\<close>

definition separated :: "(string \<times> string) list \<Rightarrow> bool" where
  "separated table \<longleftrightarrow>
     (\<forall>(old, new) \<in> set table. old \<noteq> []) \<and>
     (\<forall>(old, new) \<in> set table. \<forall>(old', new') \<in> set table.
        hd old \<notin> set new' \<and> last old \<notin> set new' \<and> \<not> set new' \<subseteq> set old) \<and>
     (\<forall>(old, new) \<in> set table. \<forall>(old', new') \<in> set table.
        prefix old old' \<longrightarrow> old = old' \<and> new = new')"

definition shift :: "nat \<Rightarrow> nat \<times> nat \<times> string \<Rightarrow> nat \<times> nat \<times> string" where
  "shift k q = (case q of (start, en, sql) \<Rightarrow> (k + start, k + en, sql))"

definition backtick_free :: "(string \<times> string) list \<Rightarrow> bool" where
  "backtick_free table \<longleftrightarrow> (\<forall>(old, new) \<in> set table. backtick \<notin> set new)"

definition example_input :: string where
  "example_input = ''SELECT '' @ quoted ''userId'' @ '', '' @ quoted ''teamId'' @ '' FROM posts''"

definition example_output :: string where
  "example_output = ''SELECT user_id, team_id FROM posts''"

text \<open>No old token of the table occurs in the text.\<close>

definition token_free :: "(string \<times> string) list \<Rightarrow> string \<Rightarrow> bool" where
  "token_free table s \<longleftrightarrow> (\<forall>(old, new) \<in> set table. \<not> sublist old s)"

definition plain_input :: string where
  "plain_input = ''SELECT id FROM posts''"

definition empty_world :: world where
  "empty_world = \<lparr>files = Map.empty, stdout = [], stderr = []\<rparr>"

definition file_text :: "world \<Rightarrow> path \<Rightarrow> string option" where
  "file_text w p = map_option contents (files w p)"


definition put :: "path \<Rightarrow> string \<Rightarrow> world \<Rightarrow> world" where
  "put p text w =
     w\<lparr>files := (files w)(p \<mapsto>
        (case files w p of
           None \<Rightarrow> \<lparr>contents = text, readable = True, writable = True\<rparr>
         | Some g \<Rightarrow> g\<lparr>contents := text\<rparr>))\<rparr>"

definition may_write :: "path \<Rightarrow> world \<Rightarrow> bool" where
  "may_write p w = (case files w p of None \<Rightarrow> True | Some g \<Rightarrow> writable g)"

definition may_read :: "path \<Rightarrow> world \<Rightarrow> bool" where
  "may_read p w =
     (case files w p of None \<Rightarrow> False | Some f \<Rightarrow> readable f \<and> utf8_valid (contents f))"

definition ascii :: "string \<Rightarrow> bool" where
  "ascii s \<longleftrightarrow> (\<forall>c \<in> set s. (of_char c :: nat) < 0x80)"

definition ascii_table :: "(string \<times> string) list \<Rightarrow> bool" where
  "ascii_table table \<longleftrightarrow>
     (\<forall>(old, new) \<in> set table. old \<noteq> [] \<and> new \<noteq> [] \<and> ascii old \<and> ascii new)"

definition CR_free :: "(string \<times> string) list \<Rightarrow> bool" where
  "CR_free table \<longleftrightarrow> (\<forall>(old, new) \<in> set table. CR \<notin> set new)"

definition handlers_go :: path where
  "handlers_go = ''internal/handlers/handlers.go''"

definition one_file_world :: "string \<Rightarrow> bool \<Rightarrow> bool \<Rightarrow> world" where
  "one_file_world text r wr =
     \<lparr>files = [handlers_go \<mapsto> \<lparr>contents = text, readable = r, writable = wr\<rparr>],
      stdout = [], stderr = []\<rparr>"

definition crlf_text :: string where
  "crlf_text = ''a'' @ [CR, LF] @ ''b''"

definition query_text :: string where
  "query_text = backtick # quoted ''teamId'' @ [backtick]"


text \<open>
  The positions of the backticks of a text in increasing order, the pairing of a list
  of positions from the left (first with second, third with fourth; a last one without
  a partner is left over), and the match that a pair of positions stands for: its
  start, its end and the text strictly between the two backticks.
\<close>

definition backtick_positions :: "string \<Rightarrow> nat list" where
  "backtick_positions s = filter (\<lambda>i. s ! i = backtick) [0..<length s]"

fun pairs :: "nat list \<Rightarrow> (nat \<times> nat) list" where
  "pairs (a # b # rest) = (a, b) # pairs rest"
| "pairs [a] = []"
| "pairs [] = []"

definition span_between :: "string \<Rightarrow> nat \<times> nat \<Rightarrow> nat \<times> nat \<times> string" where
  "span_between s ab = (case ab of (a, b) \<Rightarrow> (a, b + 1, take (b - a - 1) (drop (a + 1) s)))"

definition unpaired_pre :: string where
  "unpaired_pre = ''x'' @ [backtick] @ quoted ''teamId'' @ [backtick] @ ''y''"

definition unpaired_tail :: string where
  "unpaired_tail = quoted ''teamId''"

text \<open>
  Replacing every occurrence at once: the text is read from the left; where an old
  token of the table starts, its new token is written and the reading goes on behind
  the old token; elsewhere the character is copied. The result is the new text and the
  number of tokens replaced. \<open>clean\<close> says that on this way no token starts inside a
  token that is replaced.

  \<open>occurrences\<close> lists the occurrences of old tokens in a text as pairs of start and
  end; \<open>no_overlap\<close> says that no two of them overlap. \<open>is_permutation\<close> says that one
  list holds the elements of the other in some order.

  \<open>assemble\<close> writes a text from its parts: each segment is a text outside the blocks
  followed by a block between two backticks, and \<open>rest\<close> is what follows the last
  block; \<open>segments_ok\<close> says that the parts hold no backtick and that \<open>rest\<close> holds at
  most one, which then has no partner.
\<close>

definition find_token :: "(string \<times> string) list \<Rightarrow> string \<Rightarrow> (string \<times> string) option" where
  "find_token table s = find (\<lambda>(old, new). old \<noteq> [] \<and> prefix old s) table"

function replace_every :: "(string \<times> string) list \<Rightarrow> string \<Rightarrow> string \<times> nat" where
  "replace_every table s =
     (if s = [] then ([], 0)
      else case find_token table s of
             Some (old, new) \<Rightarrow>
               (case replace_every table (drop (length old) s) of
                  (t, n) \<Rightarrow> (new @ t, Suc n))
           | None \<Rightarrow>
               (case replace_every table (tl s) of (t, n) \<Rightarrow> (hd s # t, n)))"
  by pat_completeness auto
termination
proof (relation "measure (\<lambda>(table, s). length s)")
  show "wf (measure (\<lambda>(table, s). length s))"
    by simp
next
  fix table :: "(string \<times> string) list" and s :: string and x2 old new
  assume s: "s \<noteq> []" and f: "find_token table s = Some x2" and x: "(old, new) = x2"
  have "old \<noteq> []"
    using f x unfolding find_token_def by (auto simp: find_Some_iff)
  then show "((table, drop (length old) s), (table, s)) \<in> measure (\<lambda>(table, s). length s)"
    using s by simp
next
  fix table :: "(string \<times> string) list" and s :: string
  assume "s \<noteq> []"
  then show "((table, tl s), (table, s)) \<in> measure (\<lambda>(table, s). length s)"
    by simp
qed

declare replace_every.simps [simp del]

function clean :: "(string \<times> string) list \<Rightarrow> string \<Rightarrow> bool" where
  "clean table s =
     (if s = [] then True
      else case find_token table s of
             Some (old, new) \<Rightarrow>
               (\<forall>i \<in> {1..<length old}. find_token table (drop i s) = None) \<and>
               clean table (drop (length old) s)
           | None \<Rightarrow> clean table (tl s))"
  by pat_completeness auto
termination
proof (relation "measure (\<lambda>(table, s). length s)")
  show "wf (measure (\<lambda>(table, s). length s))"
    by simp
next
  fix table :: "(string \<times> string) list" and s :: string and x2 old new
  assume s: "s \<noteq> []" and f: "find_token table s = Some x2" and x: "(old, new) = x2"
  have "old \<noteq> []"
    using f x unfolding find_token_def by (auto simp: find_Some_iff)
  then show "((table, drop (length old) s), (table, s)) \<in> measure (\<lambda>(table, s). length s)"
    using s by simp
next
  fix table :: "(string \<times> string) list" and s :: string
  assume "s \<noteq> []"
  then show "((table, tl s), (table, s)) \<in> measure (\<lambda>(table, s). length s)"
    by simp
qed

declare clean.simps [simp del]

definition occurrences :: "(string \<times> string) list \<Rightarrow> string \<Rightarrow> (nat \<times> nat) list" where
  "occurrences table s =
     concat (map (\<lambda>i. map (\<lambda>(old, new). (i, i + length old))
                        (filter (\<lambda>(old, new). prefix old (drop i s)) table))
                 [0..<length s])"

definition no_overlap :: "(string \<times> string) list \<Rightarrow> string \<Rightarrow> bool" where
  "no_overlap table s \<longleftrightarrow>
     (\<forall>(i, j) \<in> set (occurrences table s). \<forall>(i', j') \<in> set (occurrences table s).
        i < i' \<longrightarrow> j \<le> i')"

fun is_permutation :: "'a list \<Rightarrow> 'a list \<Rightarrow> bool" where
  "is_permutation [] ys = (ys = [])"
| "is_permutation (x # xs) ys = (x \<in> set ys \<and> is_permutation xs (remove1 x ys))"

fun assemble :: "(string \<times> string) list \<Rightarrow> string \<Rightarrow> string" where
  "assemble [] rest = rest"
| "assemble ((outside, block) # segs) rest =
     outside @ [backtick] @ block @ [backtick] @ assemble segs rest"

definition segments_ok :: "(string \<times> string) list \<Rightarrow> string \<Rightarrow> bool" where
  "segments_ok segs rest \<longleftrightarrow>
     (\<forall>(outside, block) \<in> set segs. backtick \<notin> set outside \<and> backtick \<notin> set block) \<and>
     count_list rest backtick \<le> 1"

definition overlap_text :: string where
  "overlap_text = quoted ''providerId'' @ ''createdAt'' @ [dq]"

definition overlap_query :: string where
  "overlap_query = [backtick] @ quoted ''teamId'' @ ''userId'' @ [dq] @ [backtick]"

definition apart_text :: string where
  "apart_text = quoted ''providerId'' @ '','' @ quoted ''createdAt''"

definition sample_segments :: "(string \<times> string) list" where
  "sample_segments = [(quoted ''teamId'', quoted ''teamId'' @ '','' @ quoted ''userId'')]"

definition sample_rest :: string where
  "sample_rest = '' '' @ quoted ''userId'' @ [backtick] @ quoted ''teamId''"

text \<open>The number of old tokens that start at a position of a text.\<close>

definition starts_at :: "(string \<times> string) list \<Rightarrow> string \<Rightarrow> nat \<Rightarrow> nat" where
  "starts_at table s i = length (filter (\<lambda>(old, new). prefix old (drop i s)) table)"

section \<open>Lemmas\<close>

lemma py_count_Nil: "sub \<noteq> [] \<Longrightarrow> py_count [] sub = 0"
  by (simp add: py_count.simps)

lemma py_count_prefix:
  "sub \<noteq> [] \<Longrightarrow> prefix sub s \<Longrightarrow> py_count s sub = Suc (py_count (drop (length sub) s) sub)"
  by (subst py_count.simps) auto

lemma py_count_Cons:
  "sub \<noteq> [] \<Longrightarrow> \<not> prefix sub (c # cs) \<Longrightarrow> py_count (c # cs) sub = py_count cs sub"
  by (subst py_count.simps) simp

lemma py_replace_Nil: "old \<noteq> [] \<Longrightarrow> py_replace [] old new = []"
  by (simp add: py_replace.simps)

lemma py_replace_prefix:
  "old \<noteq> [] \<Longrightarrow> prefix old s \<Longrightarrow>
   py_replace s old new = new @ py_replace (drop (length old) s) old new"
  by (subst py_replace.simps) auto

lemma py_replace_Cons:
  "old \<noteq> [] \<Longrightarrow> \<not> prefix old (c # cs) \<Longrightarrow>
   py_replace (c # cs) old new = c # py_replace cs old new"
  by (subst py_replace.simps) simp

lemma py_count_absent: "sub \<noteq> [] \<Longrightarrow> \<not> sublist sub s \<Longrightarrow> py_count s sub = 0"
  by (induction s) (auto simp: py_count_Nil py_count_Cons sublist_Cons_right)

lemma py_replace_absent: "old \<noteq> [] \<Longrightarrow> \<not> sublist old s \<Longrightarrow> py_replace s old new = s"
  by (induction s) (auto simp: py_replace_Nil py_replace_Cons sublist_Cons_right)

lemma py_count_zero_absent:
  assumes "sub \<noteq> []" and "py_count s sub = 0"
  shows "\<not> sublist sub s"
  using assms
proof (induction s)
  case Nil
  then show ?case by simp
next
  case (Cons c cs)
  have np: "\<not> prefix sub (c # cs)"
    using Cons.prems py_count_prefix [of sub "c # cs"] by auto
  with Cons show ?case
    by (auto simp: py_count_Cons sublist_Cons_right)
qed

lemma py_count_pos_iff: "sub \<noteq> [] \<Longrightarrow> 0 < py_count s sub \<longleftrightarrow> sublist sub s"
  using py_count_absent py_count_zero_absent by (metis gr0I less_numeral_extra(3))

lemma py_replace_induct [consumes 1, case_names Nil Match Step]:
  assumes old: "old \<noteq> []"
    and nil: "P []"
    and match: "\<And>s. prefix old s \<Longrightarrow> P (drop (length old) s) \<Longrightarrow> P s"
    and step: "\<And>c cs. \<not> prefix old (c # cs) \<Longrightarrow> P cs \<Longrightarrow> P (c # cs)"
  shows "P s"
proof (induction "length s" arbitrary: s rule: less_induct)
  case less
  show ?case
  proof (cases s)
    case Nil
    then show ?thesis using nil by simp
  next
    case (Cons c cs)
    show ?thesis
    proof (cases "prefix old s")
      case True
      have "length (drop (length old) s) < length s"
        using old Cons by simp
      then show ?thesis using less True match by blast
    next
      case False
      then show ?thesis using less [of cs] step Cons by simp
    qed
  qed
qed

lemma prefix_replace_back:
  assumes "old \<noteq> []"
    and "prefix u (py_replace s old new)"
    and "u \<noteq> [] \<longrightarrow> last u \<notin> set new"
    and "\<not> set new \<subseteq> set u"
  shows "prefix u s"
  using assms
proof (induction s arbitrary: u rule: py_replace_induct)
  case Nil
  then show ?case using assms(1) by (simp add: py_replace_Nil)
next
  case (Match s)
  from Match.prems(1) Match.hyps assms(1)
  have "prefix u (new @ py_replace (drop (length old) s) old new)"
    by (simp add: py_replace_prefix)
  then consider "prefix u new" | us where "u = new @ us"
    by (auto simp: prefix_append)
  then show ?case
  proof cases
    case 1
    show ?thesis
    proof (cases "u = []")
      case True
      then show ?thesis by simp
    next
      case False
      then have "last u \<in> set u" by simp
      moreover have "set u \<subseteq> set new" using 1 by (rule set_mono_prefix)
      ultimately have "last u \<in> set new" by blast
      then show ?thesis using Match.prems(2) False by simp
    qed
  next
    case 2
    then show ?thesis using Match.prems(3) by auto
  qed
next
  case (Step c cs)
  from Step.prems(1) Step.hyps assms(1)
  have p: "prefix u (c # py_replace cs old new)"
    by (simp add: py_replace_Cons)
  show ?case
  proof (cases u)
    case Nil
    then show ?thesis by simp
  next
    case (Cons d u')
    with p have d: "d = c" and p': "prefix u' (py_replace cs old new)"
      by simp_all
    have "u' \<noteq> [] \<longrightarrow> last u' \<notin> set new"
      using Step.prems(2) Cons by auto
    moreover have "\<not> set new \<subseteq> set u'"
      using Step.prems(3) Cons by auto
    ultimately have "prefix u' cs"
      using Step.IH p' by blast
    then show ?thesis using Cons d by simp
  qed
qed

lemma replace_no_occurrence:
  assumes old: "old \<noteq> []" and t: "t \<noteq> []"
    and hd_t: "hd t \<notin> set new" and last_t: "last t \<notin> set new"
    and new_t: "\<not> set new \<subseteq> set t"
    and absent: "t = old \<or> \<not> sublist t s"
  shows "\<not> sublist t (py_replace s old new)"
  using old absent
proof (induction s rule: py_replace_induct)
  case Nil
  then show ?case using t old by (simp add: py_replace_Nil)
next
  case (Match s)
  let ?r = "py_replace (drop (length old) s) old new"
  have "t = old \<or> \<not> sublist t (drop (length old) s)"
    using Match.prems sublist_order.order_trans [OF _ sublist_drop] by blast
  then have ih: "\<not> sublist t ?r"
    using Match.IH by blast
  have eq: "py_replace s old new = new @ ?r"
    using Match.hyps old by (simp add: py_replace_prefix)
  show ?case
  proof
    assume "sublist t (py_replace s old new)"
    then have "sublist t (new @ ?r)" using eq by simp
    then consider "sublist t new" | "sublist t ?r"
      | t1 t2 where "t = t1 @ t2" "suffix t1 new" "prefix t2 ?r"
      by (auto simp: sublist_append)
    then show False
    proof cases
      case 1
      then have "set t \<subseteq> set new" by (rule set_mono_sublist)
      moreover have "hd t \<in> set t" using t by simp
      ultimately show False using hd_t by blast
    next
      case 2
      then show False using ih by simp
    next
      case 3
      show False
      proof (cases "t1 = []")
        case True
        then show False using 3 ih by auto
      next
        case False
        then have "hd t = hd t1" using 3(1) by simp
        moreover have "hd t1 \<in> set new"
          using False 3(2) set_mono_suffix [of t1 new] by auto
        ultimately show False using hd_t by simp
      qed
    qed
  qed
next
  case (Step c cs)
  let ?r = "py_replace cs old new"
  have "t = old \<or> \<not> sublist t cs"
    using Step.prems by (auto simp: sublist_Cons_right)
  then have ih: "\<not> sublist t ?r"
    using Step.IH by blast
  have eq: "py_replace (c # cs) old new = c # ?r"
    using Step.hyps old by (simp add: py_replace_Cons)
  show ?case
  proof
    assume "sublist t (py_replace (c # cs) old new)"
    then have "prefix t (c # ?r)"
      using eq ih by (simp add: sublist_Cons_right)
    then obtain t' where t': "t = c # t'" and p: "prefix t' ?r"
      using t by (cases t) auto
    have "t' \<noteq> [] \<longrightarrow> last t' \<notin> set new"
      using last_t t' by auto
    moreover have "\<not> set new \<subseteq> set t'"
      using new_t t' by auto
    ultimately have "prefix t' cs"
      using prefix_replace_back [OF old p] by blast
    then have pt: "prefix t (c # cs)" using t' by simp
    then have "sublist t (c # cs)" by (rule prefix_imp_sublist)
    then show False using Step.prems Step.hyps pt by auto
  qed
qed

lemma separated_REPLACEMENTS: "separated REPLACEMENTS"
  by code_simp

lemma set_COLUMN_MAPPINGS: "set COLUMN_MAPPINGS = set REPLACEMENTS"
  by code_simp

lemma separated_cong: "set table' = set table \<Longrightarrow> separated table' = separated table"
  by (simp add: separated_def)

lemma separated_COLUMN_MAPPINGS: "separated COLUMN_MAPPINGS"
  using separated_REPLACEMENTS separated_cong [OF set_COLUMN_MAPPINGS] by simp

lemma sql_loop_Cons:
  "old \<noteq> [] \<Longrightarrow>
   sql_loop ((old, new) # rest) s rm = sql_loop rest (py_replace s old new) (rm + py_count s old)"
  by (cases "sublist old s")
    (simp_all add: py_count_pos_iff py_count_absent py_replace_absent Let_def)

lemma sql_loop_acc:
  "sql_loop table s rm = (fst (sql_loop table s 0), rm + snd (sql_loop table s 0))"
proof (induction table arbitrary: s rm)
  case Nil
  then show ?case by simp
next
  case (Cons e table)
  obtain old new where e: "e = (old, new)" by (cases e)
  let ?s = "py_replace s old new" and ?c = "py_count s old"
  show ?case
  proof (cases "0 < ?c")
    case True
    have "sql_loop (e # table) s rm = sql_loop table ?s (rm + ?c)"
      using True e by simp
    also have "\<dots> = (fst (sql_loop table ?s 0), rm + ?c + snd (sql_loop table ?s 0))"
      by (rule Cons.IH)
    finally have a: "sql_loop (e # table) s rm =
        (fst (sql_loop table ?s 0), rm + ?c + snd (sql_loop table ?s 0))" .
    have "sql_loop (e # table) s 0 = sql_loop table ?s ?c"
      using True e by simp
    also have "\<dots> = (fst (sql_loop table ?s 0), ?c + snd (sql_loop table ?s 0))"
      by (rule Cons.IH)
    finally have b: "sql_loop (e # table) s 0 =
        (fst (sql_loop table ?s 0), ?c + snd (sql_loop table ?s 0))" .
    show ?thesis
      unfolding a b by simp
  next
    case False
    have a: "sql_loop (e # table) s rm = sql_loop table s rm"
      using False e by simp
    have b: "sql_loop (e # table) s 0 = sql_loop table s 0"
      using False e by simp
    show ?thesis
      unfolding a b by (rule Cons.IH)
  qed
qed

lemma separated_nonempty: "separated table \<Longrightarrow> (old, new) \<in> set table \<Longrightarrow> old \<noteq> []"
  unfolding separated_def by blast

lemma separated_ends:
  "separated table \<Longrightarrow> (old, new) \<in> set table \<Longrightarrow> (old', new') \<in> set table \<Longrightarrow>
   hd old \<notin> set new' \<and> last old \<notin> set new' \<and> \<not> set new' \<subseteq> set old"
proof -
  assume s: "separated table" and a: "(old, new) \<in> set table" and b: "(old', new') \<in> set table"
  from s have "\<forall>(old, new) \<in> set table. \<forall>(old', new') \<in> set table.
        hd old \<notin> set new' \<and> last old \<notin> set new' \<and> \<not> set new' \<subseteq> set old"
    unfolding separated_def by (elim conjE)
  from bspec [OF this a, unfolded prod.case] have "\<forall>(old', new') \<in> set table.
        hd old \<notin> set new' \<and> last old \<notin> set new' \<and> \<not> set new' \<subseteq> set old" .
  from bspec [OF this b, unfolded prod.case] show ?thesis .
qed

lemma separated_prefix:
  "separated table \<Longrightarrow> (old, new) \<in> set table \<Longrightarrow> (old', new') \<in> set table \<Longrightarrow>
   prefix old old' \<Longrightarrow> old = old' \<and> new = new'"
proof -
  assume s: "separated table" and a: "(old, new) \<in> set table" and b: "(old', new') \<in> set table"
    and p: "prefix old old'"
  from s have "\<forall>(old, new) \<in> set table. \<forall>(old', new') \<in> set table.
        prefix old old' \<longrightarrow> old = old' \<and> new = new'"
    unfolding separated_def by (elim conjE)
  from bspec [OF this a, unfolded prod.case] have "\<forall>(old', new') \<in> set table.
        prefix old old' \<longrightarrow> old = old' \<and> new = new'" .
  from bspec [OF this b, unfolded prod.case] p show ?thesis by (rule mp)
qed

lemma sql_loop_no_occurrence:
  assumes "\<And>old new. (old, new) \<in> set table \<Longrightarrow> old \<noteq> []"
    and "t \<noteq> []"
    and "\<And>old new. (old, new) \<in> set table \<Longrightarrow>
           hd t \<notin> set new \<and> last t \<notin> set new \<and> \<not> set new \<subseteq> set t"
    and "t \<in> fst ` set table \<or> \<not> sublist t s"
  shows "\<not> sublist t (fst (sql_loop table s 0))"
  using assms
proof (induction table arbitrary: s)
  case Nil
  then show ?case by simp
next
  case (Cons e table)
  obtain old new where e: "e = (old, new)" by (cases e)
  have old: "old \<noteq> []" using Cons.prems(1) [of old new] e by simp
  let ?s = "py_replace s old new"
  have step: "sql_loop (e # table) s 0 = sql_loop table ?s (py_count s old)"
    using sql_loop_Cons [OF old, of new table s 0] e by simp
  have "t \<in> fst ` set table \<or> \<not> sublist t ?s"
  proof (cases "t \<in> fst ` set table")
    case True
    then show ?thesis by simp
  next
    case False
    have "t \<in> insert old (fst ` set table) \<or> \<not> sublist t s"
      using Cons.prems(4) e by simp
    then have "t = old \<or> \<not> sublist t s"
      using False by blast
    moreover have "hd t \<notin> set new \<and> last t \<notin> set new \<and> \<not> set new \<subseteq> set t"
      using Cons.prems(3) [of old new] e by simp
    ultimately have "\<not> sublist t ?s"
      using replace_no_occurrence [OF old Cons.prems(2), of new s] by blast
    then show ?thesis by simp
  qed
  moreover have "old' \<noteq> []" if "(old', new') \<in> set table" for old' new'
    by (rule Cons.prems(1) [of old' new']) (simp add: that)
  moreover have "hd t \<notin> set new' \<and> last t \<notin> set new' \<and> \<not> set new' \<subseteq> set t"
    if "(old', new') \<in> set table" for old' new'
    by (rule Cons.prems(3) [of old' new']) (simp add: that)
  ultimately have "\<not> sublist t (fst (sql_loop table ?s 0))"
    using Cons.IH [of ?s] Cons.prems(2) by blast
  moreover have "fst (sql_loop (e # table) s 0) = fst (sql_loop table ?s 0)"
    unfolding step by (subst sql_loop_acc) simp
  ultimately show ?case by simp
qed

lemma separated_result_clean:
  assumes "separated table" and "(t, n) \<in> set table"
  shows "\<not> sublist t (fst (sql_loop table s 0))"
proof (rule sql_loop_no_occurrence)
  show "old \<noteq> []" if "(old, new) \<in> set table" for old new
    using separated_nonempty [OF assms(1) that] .
  show "t \<noteq> []"
    using separated_nonempty [OF assms] .
  show "hd t \<notin> set new \<and> last t \<notin> set new \<and> \<not> set new \<subseteq> set t"
    if "(old, new) \<in> set table" for old new
    using separated_ends [OF assms that] .
  have "fst (t, n) \<in> fst ` set table"
    using assms(2) by (rule imageI)
  then show "t \<in> fst ` set table \<or> \<not> sublist t s"
    by simp
qed

lemma sql_loop_absent':
  assumes "\<And>old new. (old, new) \<in> set table \<Longrightarrow> old \<noteq> [] \<and> \<not> sublist old s"
  shows "sql_loop table s rm = (s, rm)"
  using assms
proof (induction table)
  case Nil
  then show ?case by simp
next
  case (Cons e table)
  obtain old new where e: "e = (old, new)" by (cases e)
  have "old \<noteq> [] \<and> \<not> sublist old s"
    using Cons.prems [of old new] e by simp
  then have "py_count s old = 0"
    by (simp add: py_count_absent)
  then have "sql_loop (e # table) s rm = sql_loop table s rm"
    using e by simp
  moreover have "sql_loop table s rm = (s, rm)"
  proof (rule Cons.IH)
    show "old' \<noteq> [] \<and> \<not> sublist old' s" if "(old', new') \<in> set table" for old' new'
      by (rule Cons.prems [of old' new']) (simp add: that)
  qed
  ultimately show ?case by simp
qed

lemma sql_loop_idempotent:
  assumes "separated table"
  shows "sql_loop table (fst (sql_loop table s 0)) 0 = (fst (sql_loop table s 0), 0)"
proof (rule sql_loop_absent')
  show "old \<noteq> [] \<and> \<not> sublist old (fst (sql_loop table s 0))"
    if "(old, new) \<in> set table" for old new
    using separated_nonempty [OF assms that] separated_result_clean [OF assms that] by simp
qed

lemma takeWhile_to_backtick:
  "backtick \<notin> set x \<Longrightarrow> takeWhile (\<lambda>c. c \<noteq> backtick) (x @ backtick # r) = x"
  by (induction x) auto

lemma dropWhile_to_backtick:
  "backtick \<notin> set x \<Longrightarrow> dropWhile (\<lambda>c. c \<noteq> backtick) (x @ backtick # r) = backtick # r"
  by (induction x) auto

lemma dropWhile_no_backtick:
  "backtick \<notin> set x \<Longrightarrow> dropWhile (\<lambda>c. c \<noteq> backtick) x = []"
  by (induction x) auto

lemma scan_queries_none: "backtick \<notin> set s \<Longrightarrow> scan_queries pos s = []"
  by (subst scan_queries.simps) (simp add: dropWhile_no_backtick)

lemma scan_queries_one:
  "backtick \<notin> set x \<Longrightarrow> backtick \<notin> set y \<Longrightarrow> scan_queries pos (x @ backtick # y) = []"
  by (subst scan_queries.simps) (simp add: dropWhile_to_backtick dropWhile_no_backtick)

lemma scan_queries_block:
  assumes "backtick \<notin> set x" and "backtick \<notin> set b"
  shows "scan_queries pos (x @ backtick # b @ backtick # rest) =
         (pos + length x, pos + length x + length b + 2, b)
           # scan_queries (pos + length x + length b + 2) rest"
  using assms
  by (subst scan_queries.simps)
    (simp add: dropWhile_to_backtick takeWhile_to_backtick Let_def)

lemma backtick_cases [case_names none one block]:
  obtains "backtick \<notin> set s"
  | x y where "s = x @ backtick # y" "backtick \<notin> set x" "backtick \<notin> set y"
  | x b rest where "s = x @ backtick # b @ backtick # rest" "backtick \<notin> set x" "backtick \<notin> set b"
proof (cases "backtick \<in> set s")
  case False
  then show ?thesis using that(1) by simp
next
  case True
  then obtain x r where s: "s = x @ backtick # r" and x: "backtick \<notin> set x"
    using split_list_first [of backtick s] by blast
  show ?thesis
  proof (cases "backtick \<in> set r")
    case False
    then show ?thesis using that(2) s x by simp
  next
    case True
    then obtain b rest where r: "r = b @ backtick # rest" and b: "backtick \<notin> set b"
      using split_list_first [of backtick r] by blast
    show ?thesis using that(3) [of x b rest] s r x b by simp
  qed
qed

lemma blocks_induct [case_names none one block]:
  assumes none: "\<And>s. backtick \<notin> set s \<Longrightarrow> P s"
    and one: "\<And>x y. backtick \<notin> set x \<Longrightarrow> backtick \<notin> set y \<Longrightarrow> P (x @ backtick # y)"
    and block: "\<And>x b rest. backtick \<notin> set x \<Longrightarrow> backtick \<notin> set b \<Longrightarrow> P rest \<Longrightarrow>
                  P (x @ backtick # b @ backtick # rest)"
  shows "P s"
proof (induction "length s" arbitrary: s rule: less_induct)
  case less
  show ?case
  proof (cases s rule: backtick_cases)
    case none
    then show ?thesis using assms(1) by simp
  next
    case (one x y)
    then show ?thesis using assms(2) by simp
  next
    case (block x b rest)
    then have "length rest < length s" by simp
    then have "P rest" by (rule less)
    then show ?thesis using assms(3) block by simp
  qed
qed

lemma scan_queries_shift: "scan_queries (k + pos) s = map (shift k) (scan_queries pos s)"
proof (induction s arbitrary: pos rule: blocks_induct)
  case (none s)
  then show ?case by (simp add: scan_queries_none)
next
  case (one x y)
  then show ?case by (simp add: scan_queries_one)
next
  case (block x b rest)
  have "scan_queries (k + (pos + length x + length b + 2)) rest =
        map (shift k) (scan_queries (pos + length x + length b + 2) rest)"
    by (rule block.IH)
  then show ?case
    using block.hyps by (simp add: scan_queries_block shift_def add.assoc)
qed

lemma queries_loop_append:
  "queries_loop table (qs @ qs') content rm =
   (case queries_loop table qs content rm of (content', rm') \<Rightarrow> queries_loop table qs' content' rm')"
proof (induction qs arbitrary: content rm)
  case Nil
  then show ?case by simp
next
  case (Cons q qs)
  obtain start en sql where q: "q = (start, en, sql)" by (cases q)
  show ?case
    unfolding q by (simp add: Cons split: prod.splits)
qed

lemma queries_loop_shift:
  "queries_loop table (map (shift (length pre)) qs) (pre @ content) rm =
   (pre @ fst (queries_loop table qs content rm), snd (queries_loop table qs content rm))"
proof (induction qs arbitrary: content rm)
  case Nil
  then show ?case by simp
next
  case (Cons q qs)
  obtain start en sql where q: "q = (start, en, sql)" by (cases q)
  obtain u rm' where u: "sql_loop table sql rm = (u, rm')" by (cases "sql_loop table sql rm")
  let ?c = "if u \<noteq> sql then take start content @ [backtick] @ u @ [backtick] @ drop en content
            else content"
  have a: "queries_loop table (q # qs) content rm = queries_loop table qs ?c rm'"
    unfolding q using u by simp
  have b: "queries_loop table (map (shift (length pre)) (q # qs)) (pre @ content) rm =
           queries_loop table (map (shift (length pre)) qs) (pre @ ?c) rm'"
    unfolding q using u by (simp add: shift_def)
  show ?case
    unfolding a b by (rule Cons.IH)
qed

lemma update_sql_with_none:
  "backtick \<notin> set s \<Longrightarrow> update_sql_with table s = (s, 0)"
  by (simp add: update_sql_with_def extract_sql_queries_def scan_queries_none)

lemma update_sql_with_one:
  "backtick \<notin> set x \<Longrightarrow> backtick \<notin> set y \<Longrightarrow>
   update_sql_with table (x @ backtick # y) = (x @ backtick # y, 0)"
  by (simp add: update_sql_with_def extract_sql_queries_def scan_queries_one)

lemma update_sql_with_block:
  assumes x: "backtick \<notin> set x" and b: "backtick \<notin> set b"
  shows "update_sql_with table (x @ backtick # b @ backtick # rest) =
         (x @ backtick # fst (sql_loop table b 0) @ backtick # fst (update_sql_with table rest),
          snd (update_sql_with table rest) + snd (sql_loop table b 0))"
proof -
  let ?pre = "x @ backtick # b @ [backtick]"
  let ?k = "length x + length b + 2"
  let ?qs = "scan_queries 0 rest"
  let ?rest' = "fst (queries_loop table (rev ?qs) rest 0)"
  let ?n = "snd (queries_loop table (rev ?qs) rest 0)"
  have len: "length ?pre = ?k" by simp
  have content: "x @ backtick # b @ backtick # rest = ?pre @ rest" by simp
  have "scan_queries 0 (x @ backtick # b @ backtick # rest) =
        (length x, ?k, b) # scan_queries (?k + 0) rest"
    using scan_queries_block [OF x b, of 0 rest] by simp
  then have scan: "scan_queries 0 (x @ backtick # b @ backtick # rest) =
        (length x, ?k, b) # map (shift (length ?pre)) ?qs"
    unfolding scan_queries_shift len .
  have later: "queries_loop table (map (shift (length ?pre)) (rev ?qs)) (?pre @ rest) 0 =
        (?pre @ ?rest', ?n)"
    by (rule queries_loop_shift)
  obtain u where u: "sql_loop table b ?n = (u, ?n + snd (sql_loop table b 0))"
    and u0: "u = fst (sql_loop table b 0)"
    using sql_loop_acc [of table b ?n] by simp
  have tk: "take (length x) (?pre @ ?rest') = x" by simp
  have dr: "drop ?k (?pre @ ?rest') = ?rest'" by simp
  have last_step: "queries_loop table [(length x, ?k, b)] (?pre @ ?rest') ?n =
        (x @ backtick # u @ backtick # ?rest', ?n + snd (sql_loop table b 0))"
  proof (cases "u = b")
    case True
    then show ?thesis using u by simp
  next
    case False
    then show ?thesis
      using u tk dr by (simp del: append_assoc append.simps take_append drop_append)
  qed
  have "update_sql_with table (x @ backtick # b @ backtick # rest) =
        queries_loop table (map (shift (length ?pre)) (rev ?qs) @ [(length x, ?k, b)]) (?pre @ rest) 0"
    unfolding update_sql_with_def extract_sql_queries_def scan content [symmetric]
    by (simp add: rev_map)
  also have "\<dots> = queries_loop table [(length x, ?k, b)] (?pre @ ?rest') ?n"
    unfolding queries_loop_append later by simp
  also have "\<dots> = (x @ backtick # u @ backtick # ?rest', ?n + snd (sql_loop table b 0))"
    by (rule last_step)
  finally show ?thesis
    unfolding u0 update_sql_with_def extract_sql_queries_def .
qed

lemma backtick_free_REPLACEMENTS: "backtick_free REPLACEMENTS"
  by code_simp

lemma backtick_freeD:
  "backtick_free table \<Longrightarrow> (old, new) \<in> set table \<Longrightarrow> backtick \<notin> set new"
  unfolding backtick_free_def by blast

lemma update_loop_sql_loop:
  "update_loop table s rm w =
   (fst (sql_loop table s rm), snd (sql_loop table s rm), snd (snd (update_loop table s rm w)))"
proof (induction table arbitrary: s rm w)
  case Nil
  then show ?case by simp
next
  case (Cons e table)
  obtain old new where e: "e = (old, new)" by (cases e)
  show ?case
  proof (cases "0 < py_count s old")
    case True
    then show ?thesis
      unfolding e using Cons [of "py_replace s old new" "rm + py_count s old"
          "print (Replaced old new (py_count s old)) w"]
      by (simp add: Let_def)
  next
    case False
    then show ?thesis
      unfolding e using Cons [of s rm w] by simp
  qed
qed

lemma update_loop_absent:
  assumes "\<And>old new. (old, new) \<in> set table \<Longrightarrow> old \<noteq> [] \<and> \<not> sublist old s"
  shows "update_loop table s rm w = (s, rm, w)"
  using assms
proof (induction table)
  case Nil
  then show ?case by simp
next
  case (Cons e table)
  obtain old new where e: "e = (old, new)" by (cases e)
  have "old \<noteq> [] \<and> \<not> sublist old s"
    using Cons.prems [of old new] e by simp
  then have "py_count s old = 0"
    by (simp add: py_count_absent)
  then have "update_loop (e # table) s rm w = update_loop table s rm w"
    using e by simp
  moreover have "update_loop table s rm w = (s, rm, w)"
  proof (rule Cons.IH)
    show "old' \<noteq> [] \<and> \<not> sublist old' s" if "(old', new') \<in> set table" for old' new'
      by (rule Cons.prems [of old' new']) (simp add: that)
  qed
  ultimately show ?case by simp
qed

lemma py_replace_keeps_out:
  assumes "old \<noteq> []" and "c \<notin> set s" and "c \<notin> set new"
  shows "c \<notin> set (py_replace s old new)"
  using assms(1,2)
proof (induction s rule: py_replace_induct)
  case Nil
  then show ?case using assms(1) by (simp add: py_replace_Nil)
next
  case (Match s)
  have "c \<notin> set (drop (length old) s)"
    using Match.prems in_set_dropD by fast
  then have "c \<notin> set (py_replace (drop (length old) s) old new)"
    by (rule Match.IH)
  then show ?case
    using Match.hyps assms(1,3) by (simp add: py_replace_prefix)
next
  case (Step d cs)
  then show ?case
    using assms(1) by (simp add: py_replace_Cons)
qed

lemma sql_loop_keeps_out:
  assumes "\<And>old new. (old, new) \<in> set table \<Longrightarrow> old \<noteq> [] \<and> c \<notin> set new"
    and "c \<notin> set s"
  shows "c \<notin> set (fst (sql_loop table s rm))"
  using assms
proof (induction table arbitrary: s rm)
  case Nil
  then show ?case by simp
next
  case (Cons e table)
  obtain old new where e: "e = (old, new)" by (cases e)
  have on: "old \<noteq> [] \<and> c \<notin> set new"
    using Cons.prems(1) [of old new] e by simp
  have rest: "old' \<noteq> [] \<and> c \<notin> set new'" if "(old', new') \<in> set table" for old' new'
    by (rule Cons.prems(1) [of old' new']) (simp add: that)
  have "c \<notin> set (py_replace s old new)"
    using on Cons.prems(2) by (simp add: py_replace_keeps_out)
  then have "c \<notin> set (fst (sql_loop table (py_replace s old new) (rm + py_count s old)))"
    using Cons.IH rest by blast
  moreover have "sql_loop ((old, new) # table) s rm =
      sql_loop table (py_replace s old new) (rm + py_count s old)"
    using on by (intro sql_loop_Cons) simp
  ultimately show ?case
    unfolding e by simp
qed

lemma update_sql_with_idempotent:
  assumes sep: "separated table" and bf: "backtick_free table"
  shows "update_sql_with table (fst (update_sql_with table content)) =
         (fst (update_sql_with table content), 0)"
proof (induction content rule: blocks_induct)
  case (none s)
  then show ?case by (simp add: update_sql_with_none)
next
  case (one x y)
  then show ?case by (simp add: update_sql_with_one)
next
  case (block x b rest)
  let ?u = "fst (sql_loop table b 0)"
  let ?r = "fst (update_sql_with table rest)"
  have "old \<noteq> [] \<and> backtick \<notin> set new" if "(old, new) \<in> set table" for old new
    using separated_nonempty [OF sep that] backtick_freeD [OF bf that] by simp
  then have u: "backtick \<notin> set ?u"
    using block.hyps(2) sql_loop_keeps_out [of table backtick b 0] by blast
  have first: "fst (update_sql_with table (x @ backtick # b @ backtick # rest)) =
               x @ backtick # ?u @ backtick # ?r"
    using block.hyps by (simp add: update_sql_with_block)
  have "update_sql_with table (x @ backtick # ?u @ backtick # ?r) =
        (x @ backtick # fst (sql_loop table ?u 0) @ backtick # fst (update_sql_with table ?r),
         snd (update_sql_with table ?r) + snd (sql_loop table ?u 0))"
    using block.hyps(1) u by (rule update_sql_with_block)
  also have "\<dots> = (x @ backtick # ?u @ backtick # ?r, 0)"
    unfolding sql_loop_idempotent [OF sep] block.IH by simp
  finally show ?case
    unfolding first .
qed

lemma update_sql_with_absent:
  assumes "\<And>old new. (old, new) \<in> set table \<Longrightarrow> old \<noteq> [] \<and> \<not> sublist old content"
  shows "update_sql_with table content = (content, 0)"
  using assms
proof (induction content rule: blocks_induct)
  case (none s)
  then show ?case by (simp add: update_sql_with_none)
next
  case (one x y)
  then show ?case by (simp add: update_sql_with_one)
next
  case (block x b rest)
  let ?content = "x @ backtick # b @ backtick # rest"
  have sb: "sublist b ?content"
    using sublist_appendI [of b "x @ [backtick]" "backtick # rest"] by simp
  have sr: "sublist rest ?content"
    using sublist_appendI [of rest "x @ backtick # b @ [backtick]" "[]"] by simp
  have "old \<noteq> [] \<and> \<not> sublist old b" if "(old, new) \<in> set table" for old new
    using block.prems [OF that] sublist_order.order_trans [OF _ sb] by blast
  then have b0: "sql_loop table b 0 = (b, 0)"
    by (rule sql_loop_absent')
  have "old \<noteq> [] \<and> \<not> sublist old rest" if "(old, new) \<in> set table" for old new
    using block.prems [OF that] sublist_order.order_trans [OF _ sr] by blast
  then have r0: "update_sql_with table rest = (rest, 0)"
    by (rule block.IH)
  show ?case
    using block.hyps by (simp add: update_sql_with_block b0 r0)
qed

section \<open>Lemmas on decoding\<close>

lemma asciiD: "ascii s \<Longrightarrow> c \<in> set s \<Longrightarrow> (of_char c :: nat) < 0x80"
  unfolding ascii_def by blast

lemma ascii_Cons: "ascii (c # cs) \<longleftrightarrow> (of_char c :: nat) < 0x80 \<and> ascii cs"
  by (simp add: ascii_def)

lemma utf8_step_ascii:
  "(of_char c :: nat) < 0x80 \<Longrightarrow>
   utf8_step st c = (if st = Boundary then Some Boundary else None)"
  by (cases st) (simp_all add: utf8_step_def Let_def)

lemma utf8_run_append:
  "utf8_run st (a @ b) = (case utf8_run st a of None \<Rightarrow> None | Some st' \<Rightarrow> utf8_run st' b)"
  by (induction a arbitrary: st) (simp_all split: option.splits)

lemma utf8_run_ascii:
  "ascii a \<Longrightarrow> a \<noteq> [] \<Longrightarrow> utf8_run st a = (if st = Boundary then Some Boundary else None)"
proof (induction a arbitrary: st)
  case Nil
  then show ?case by simp
next
  case (Cons c cs)
  have c: "(of_char c :: nat) < 0x80" and cs: "ascii cs"
    using Cons.prems(1) by (simp_all add: ascii_Cons)
  show ?case
  proof (cases "cs = []")
    case True
    then show ?thesis by (simp add: utf8_step_ascii [OF c])
  next
    case False
    then show ?thesis
      using Cons.IH [OF cs False, of Boundary] by (simp add: utf8_step_ascii [OF c])
  qed
qed

lemma utf8_run_replace:
  assumes old: "old \<noteq> []" and new: "new \<noteq> []" and ao: "ascii old" and an: "ascii new"
  shows "utf8_run st (py_replace s old new) = utf8_run st s"
  using old
proof (induction s arbitrary: st rule: py_replace_induct)
  case Nil
  then show ?case using old by (simp add: py_replace_Nil)
next
  case (Match s)
  let ?rest = "drop (length old) s"
  have s: "s = old @ ?rest"
    using Match.hyps by (metis append_eq_conv_conj prefix_def)
  have "utf8_run st (py_replace s old new) = utf8_run st (new @ py_replace ?rest old new)"
    using Match.hyps old by (simp add: py_replace_prefix)
  also have "\<dots> = (if st = Boundary then utf8_run Boundary (py_replace ?rest old new) else None)"
    by (simp add: utf8_run_append utf8_run_ascii [OF an new])
  also have "\<dots> = (if st = Boundary then utf8_run Boundary ?rest else None)"
    using Match.IH by simp
  also have "\<dots> = utf8_run st (old @ ?rest)"
    by (simp add: utf8_run_append utf8_run_ascii [OF ao old])
  finally show ?case
    using s by simp
next
  case (Step c cs)
  have "py_replace (c # cs) old new = c # py_replace cs old new"
    using Step.hyps old by (simp add: py_replace_Cons)
  then show ?case
    using Step.IH by (simp split: option.splits)
qed

lemma utf8_run_universal_newlines: "utf8_run st (universal_newlines s) = utf8_run st s"
proof (induction s arbitrary: st rule: universal_newlines.induct)
  case 1
  then show ?case by simp
next
  case (2 c)
  have "(of_char CR :: nat) < 0x80" "(of_char LF :: nat) < 0x80"
    by (simp_all add: CR_def LF_def)
  then show ?case
    by (simp add: utf8_step_ascii)
next
  case (3 c d ds)
  have a: "(of_char CR :: nat) < 0x80" "(of_char LF :: nat) < 0x80"
    by (simp_all add: CR_def LF_def)
  show ?case
  proof (cases "c = CR")
    case False
    then show ?thesis
      using 3 by (simp split: option.splits)
  next
    case True
    show ?thesis
    proof (cases "d = LF")
      case True
      with \<open>c = CR\<close> show ?thesis
        using 3(1) [of Boundary] a by (simp add: utf8_step_ascii)
    next
      case False
      with \<open>c = CR\<close> show ?thesis
        using 3(2) [of Boundary] a by (simp add: utf8_step_ascii)
    qed
  qed
qed

lemma ascii_tableD:
  "ascii_table table \<Longrightarrow> (old, new) \<in> set table \<Longrightarrow>
   old \<noteq> [] \<and> new \<noteq> [] \<and> ascii old \<and> ascii new"
  unfolding ascii_table_def by blast

lemma ascii_table_REPLACEMENTS: "ascii_table REPLACEMENTS"
  by code_simp

lemma ascii_table_COLUMN_MAPPINGS: "ascii_table COLUMN_MAPPINGS"
  by code_simp

lemma utf8_run_sql_loop:
  assumes "ascii_table table"
  shows "utf8_run st (fst (sql_loop table s rm)) = utf8_run st s"
  using assms
proof (induction table arbitrary: s rm)
  case Nil
  then show ?case by simp
next
  case (Cons e table)
  obtain old new where e: "e = (old, new)" by (cases e)
  have on: "old \<noteq> [] \<and> new \<noteq> [] \<and> ascii old \<and> ascii new"
    using ascii_tableD [OF Cons.prems, of old new] e by simp
  have rest: "ascii_table table"
    using Cons.prems by (simp add: ascii_table_def)
  have "sql_loop (e # table) s rm =
        sql_loop table (py_replace s old new) (rm + py_count s old)"
    unfolding e using on by (intro sql_loop_Cons) simp
  then have "utf8_run st (fst (sql_loop (e # table) s rm)) = utf8_run st (py_replace s old new)"
    using Cons.IH [OF rest] by simp
  then show ?case
    using on by (simp add: utf8_run_replace)
qed

lemma utf8_run_update_sql_with:
  assumes "ascii_table table"
  shows "utf8_run st (fst (update_sql_with table s)) = utf8_run st s"
proof (induction s arbitrary: st rule: blocks_induct)
  case (none s)
  then show ?case by (simp add: update_sql_with_none)
next
  case (one x y)
  then show ?case by (simp add: update_sql_with_one)
next
  case (block x b rest)
  let ?u = "fst (sql_loop table b 0)" and ?r = "fst (update_sql_with table rest)"
  have out: "fst (update_sql_with table (x @ backtick # b @ backtick # rest)) =
             x @ backtick # ?u @ backtick # ?r"
    using block.hyps by (simp add: update_sql_with_block)
  have "utf8_run st (x @ [backtick] @ ?u @ [backtick] @ ?r) =
        utf8_run st (x @ [backtick] @ b @ [backtick] @ rest)"
    unfolding utf8_run_append utf8_run_sql_loop [OF assms] block.IH ..
  then show ?case
    unfolding out by simp
qed

section \<open>Lemmas on files and runs\<close>

lemma print_files [simp]: "files (print m w) = files w"
  by (simp add: print_def)

lemma print_stderr [simp]: "stderr (print m w) = stderr w"
  by (simp add: print_def)

lemma print_stdout [simp]: "stdout (print m w) = stdout w @ [m]"
  by (simp add: print_def)

lemma update_loop_files [simp]: "files (snd (snd (update_loop table s rm w))) = files w"
  by (induction table arbitrary: s rm w) (auto simp: Let_def)

lemma update_loop_stderr [simp]: "stderr (snd (snd (update_loop table s rm w))) = stderr w"
  by (induction table arbitrary: s rm w) (auto simp: Let_def)

lemma read_text_print [simp]: "read_text p (print m w) = read_text p w"
  by (simp add: read_text_def)

lemma write_text_ok:
  assumes "case files w p of None \<Rightarrow> True | Some g \<Rightarrow> writable g"
  obtains w' where "write_text p text w = Inr w'"
    and "file_text w' p = Some text"
    and "\<And>q. q \<noteq> p \<Longrightarrow> files w' q = files w q"
    and "stdout w' = stdout w" and "stderr w' = stderr w"
    and "\<And>f. files w p = Some f \<Longrightarrow> files w' p = Some (f\<lparr>contents := text\<rparr>)"
    and "files w p = None \<Longrightarrow> files w' p = Some \<lparr>contents = text, readable = True, writable = True\<rparr>"
  using assms by (cases "files w p") (auto simp: write_text_def file_text_def)

lemma universal_newlines_no_CR: "CR \<notin> set (universal_newlines s)"
  by (induction s rule: universal_newlines.induct) (auto simp: CR_def LF_def)

lemma universal_newlines_id: "CR \<notin> set s \<Longrightarrow> universal_newlines s = s"
  by (induction s rule: universal_newlines.induct) auto

lemma write_text_put: "may_write p w \<Longrightarrow> write_text p text w = Inr (put p text w)"
  by (cases "files w p") (auto simp: write_text_def put_def may_write_def)

lemma write_text_denied: "\<not> may_write p w \<Longrightarrow> write_text p text w = Inl (PermissionError p)"
  by (cases "files w p") (auto simp: write_text_def may_write_def)

lemma may_write_print [simp]: "may_write p (print m w) = may_write p w"
  by (simp add: may_write_def)

lemma may_write_put [simp]: "may_write q (put p text w) = may_write q w"
  by (cases "files w p") (auto simp: may_write_def put_def)

lemma may_write_update_loop [simp]:
  "may_write p (snd (snd (update_loop table s rm w))) = may_write p w"
  by (simp add: may_write_def)

lemma file_text_put: "file_text (put p text w) q = (if q = p then Some text else file_text w q)"
  by (cases "files w p") (auto simp: file_text_def put_def)

lemma file_text_print [simp]: "file_text (print m w) q = file_text w q"
  by (simp add: file_text_def)

lemma file_text_update_loop [simp]:
  "file_text (snd (snd (update_loop table s rm w))) q = file_text w q"
  by (simp add: file_text_def)

lemma stdout_put [simp]: "stdout (put p text w) = stdout w"
  by (simp add: put_def)

lemma stderr_put [simp]: "stderr (put p text w) = stderr w"
  by (simp add: put_def)

lemma may_read_print [simp]: "may_read p (print m w) = may_read p w"
  by (simp add: may_read_def)

lemma may_read_put_other: "q \<noteq> p \<Longrightarrow> may_read q (put p text w) = may_read q w"
  by (cases "files w p") (auto simp: may_read_def put_def)

lemma may_read_put_same:
  "may_read p w \<Longrightarrow> utf8_valid text \<Longrightarrow> may_read p (put p text w)"
  by (cases "files w p") (auto simp: may_read_def put_def)

lemma may_read_valid: "may_read p w \<Longrightarrow> utf8_valid (the (file_text w p))"
  by (cases "files w p") (auto simp: may_read_def file_text_def)

lemma may_read_update_loop [simp]:
  "may_read p (snd (snd (update_loop table s rm w))) = may_read p w"
  by (simp add: may_read_def)

lemma read_text_ok:
  "may_read p w \<Longrightarrow> read_text p w = Inr (universal_newlines (the (file_text w p)))"
  by (cases "files w p") (auto simp: read_text_def may_read_def file_text_def)

lemma update_file_success:
  assumes "may_read p w" and "may_write p w" and "may_write (p @ ''.bak'') w"
  shows "update_file p w =
    (case update_loop COLUMN_MAPPINGS (universal_newlines (the (file_text w p))) 0
            (put (p @ ''.bak'') (universal_newlines (the (file_text w p))) (print (Processing p) w)) of
       (updated_content, replacements_made, w3) \<Rightarrow>
         (Inr replacements_made, print (Updated p replacements_made) (put p updated_content w3)))"
proof -
  let ?text = "universal_newlines (the (file_text w p))"
  let ?w2 = "put (p @ ''.bak'') ?text (print (Processing p) w)"
  obtain u n w3 where ul: "update_loop COLUMN_MAPPINGS ?text 0 ?w2 = (u, n, w3)"
    by (cases "update_loop COLUMN_MAPPINGS ?text 0 ?w2")
  have "may_write p (snd (snd (update_loop COLUMN_MAPPINGS ?text 0 ?w2)))"
    using assms(2) by simp
  then have "may_write p w3"
    unfolding ul by simp
  then show ?thesis
    using assms ul
    by (simp add: update_file_def Let_def read_text_ok write_text_put)
qed

lemma process_file_success:
  assumes "may_read p w" and "may_write p w" and "may_write (p @ ''.bak'') w"
  shows "process_file p w =
    (case update_sql_in_content (universal_newlines (the (file_text w p))) of
       (updated_content, n) \<Rightarrow>
         (Inr n, print (Made n) (put p updated_content
            (put (p @ ''.bak'') (universal_newlines (the (file_text w p))) (print (Processing p) w)))))"
  using assms
  by (simp add: process_file_def Let_def read_text_ok write_text_put split: prod.splits)

lemma CR_free_REPLACEMENTS: "CR_free REPLACEMENTS"
  by code_simp

lemma CR_free_COLUMN_MAPPINGS: "CR_free COLUMN_MAPPINGS"
  by code_simp

lemma CR_freeD: "CR_free table \<Longrightarrow> (old, new) \<in> set table \<Longrightarrow> CR \<notin> set new"
  unfolding CR_free_def by blast

lemma update_sql_with_keeps_out:
  assumes "\<And>old new. (old, new) \<in> set table \<Longrightarrow> old \<noteq> [] \<and> c \<notin> set new"
    and "c \<notin> set s"
  shows "c \<notin> set (fst (update_sql_with table s))"
  using assms(2)
proof (induction s rule: blocks_induct)
  case (none s)
  then show ?case by (simp add: update_sql_with_none)
next
  case (one x y)
  then show ?case by (simp add: update_sql_with_one)
next
  case (block x b rest)
  have "c \<notin> set b" using block.prems by simp
  then have "c \<notin> set (fst (sql_loop table b 0))"
    using assms(1) sql_loop_keeps_out [of table c b 0] by blast
  moreover have "c \<notin> set (fst (update_sql_with table rest))"
    using block.IH block.prems by simp
  ultimately show ?case
    using block.hyps block.prems by (simp add: update_sql_with_block)
qed

lemma update_file_result:
  assumes "may_read p w" and "may_write p w" and "may_write (p @ ''.bak'') w"
  shows "fst (update_file p w) =
           Inr (snd (sql_loop COLUMN_MAPPINGS (universal_newlines (the (file_text w p))) 0))"
    and "file_text (snd (update_file p w)) q =
           (if q = p then Some (fst (sql_loop COLUMN_MAPPINGS (universal_newlines (the (file_text w p))) 0))
            else if q = p @ ''.bak'' then Some (universal_newlines (the (file_text w p)))
            else file_text w q)"
    and "may_read p (snd (update_file p w))"
    and "may_write q (snd (update_file p w)) = may_write q w"
proof -
  let ?text = "universal_newlines (the (file_text w p))"
  let ?w2 = "put (p @ ''.bak'') ?text (print (Processing p) w)"
  obtain u n w3 where ul: "update_loop COLUMN_MAPPINGS ?text 0 ?w2 = (u, n, w3)"
    by (cases "update_loop COLUMN_MAPPINGS ?text 0 ?w2")
  have un: "u = fst (sql_loop COLUMN_MAPPINGS ?text 0)" "n = snd (sql_loop COLUMN_MAPPINGS ?text 0)"
    using ul by (subst (asm) update_loop_sql_loop, simp)+
  have w3: "w3 = snd (snd (update_loop COLUMN_MAPPINGS ?text 0 ?w2))"
    using ul by simp
  have eq: "update_file p w = (Inr n, print (Updated p n) (put p u w3))"
    using update_file_success [OF assms] ul by simp
  show "fst (update_file p w) = Inr (snd (sql_loop COLUMN_MAPPINGS ?text 0))"
    using eq un by simp
  show "file_text (snd (update_file p w)) q =
           (if q = p then Some (fst (sql_loop COLUMN_MAPPINGS ?text 0))
            else if q = p @ ''.bak'' then Some ?text
            else file_text w q)"
    unfolding eq w3 using un by (simp add: file_text_put)
  have "utf8_valid ?text"
    using may_read_valid [OF assms(1)] by (simp add: utf8_valid_def utf8_run_universal_newlines)
  then have "utf8_valid u"
    unfolding un utf8_valid_def by (simp add: utf8_run_sql_loop [OF ascii_table_COLUMN_MAPPINGS])
  moreover have "may_read p w3"
    unfolding w3 using assms(1) by (simp add: may_read_put_other)
  ultimately show "may_read p (snd (update_file p w))"
    unfolding eq by (simp add: may_read_put_same)
  show "may_write q (snd (update_file p w)) = may_write q w"
    unfolding eq w3 by simp
qed

lemma process_file_result:
  assumes "may_read p w" and "may_write p w" and "may_write (p @ ''.bak'') w"
  shows "fst (process_file p w) =
           Inr (snd (update_sql_in_content (universal_newlines (the (file_text w p)))))"
    and "file_text (snd (process_file p w)) q =
           (if q = p then Some (fst (update_sql_in_content (universal_newlines (the (file_text w p)))))
            else if q = p @ ''.bak'' then Some (universal_newlines (the (file_text w p)))
            else file_text w q)"
    and "may_read p (snd (process_file p w))"
    and "may_write q (snd (process_file p w)) = may_write q w"
proof -
  let ?text = "universal_newlines (the (file_text w p))"
  let ?w2 = "put (p @ ''.bak'') ?text (print (Processing p) w)"
  obtain u n where us: "update_sql_in_content ?text = (u, n)"
    by (cases "update_sql_in_content ?text")
  have eq: "process_file p w = (Inr n, print (Made n) (put p u ?w2))"
    using process_file_success [OF assms] us by simp
  show "fst (process_file p w) = Inr (snd (update_sql_in_content ?text))"
    using eq us by simp
  show "file_text (snd (process_file p w)) q =
           (if q = p then Some (fst (update_sql_in_content ?text))
            else if q = p @ ''.bak'' then Some ?text
            else file_text w q)"
    unfolding eq using us by (simp add: file_text_put)
  have "utf8_valid ?text"
    using may_read_valid [OF assms(1)] by (simp add: utf8_valid_def utf8_run_universal_newlines)
  then have "utf8_valid (fst (update_sql_in_content ?text))"
    unfolding utf8_valid_def update_sql_in_content_def
    by (simp add: utf8_run_update_sql_with [OF ascii_table_REPLACEMENTS])
  then have "utf8_valid u"
    using us by simp
  moreover have "may_read p ?w2"
    using assms(1) by (simp add: may_read_put_other)
  ultimately show "may_read p (snd (process_file p w))"
    unfolding eq by (simp add: may_read_put_same)
  show "may_write q (snd (process_file p w)) = may_write q w"
    unfolding eq by simp
qed

lemma second_read_unrestricted:
  "universal_newlines (fst (sql_loop COLUMN_MAPPINGS (universal_newlines s) 0)) =
   fst (sql_loop COLUMN_MAPPINGS (universal_newlines s) 0)"
proof (rule universal_newlines_id)
  have "old \<noteq> [] \<and> CR \<notin> set new" if "(old, new) \<in> set COLUMN_MAPPINGS" for old new
    using separated_nonempty [OF separated_COLUMN_MAPPINGS that]
      CR_freeD [OF CR_free_COLUMN_MAPPINGS that] by simp
  then show "CR \<notin> set (fst (sql_loop COLUMN_MAPPINGS (universal_newlines s) 0))"
    using universal_newlines_no_CR [of s]
      sql_loop_keeps_out [of COLUMN_MAPPINGS CR "universal_newlines s" 0] by blast
qed

lemma second_read_delimited:
  "universal_newlines (fst (update_sql_in_content (universal_newlines s))) =
   fst (update_sql_in_content (universal_newlines s))"
proof (rule universal_newlines_id)
  have "old \<noteq> [] \<and> CR \<notin> set new" if "(old, new) \<in> set REPLACEMENTS" for old new
    using separated_nonempty [OF separated_REPLACEMENTS that]
      CR_freeD [OF CR_free_REPLACEMENTS that] by simp
  then show "CR \<notin> set (fst (update_sql_in_content (universal_newlines s)))"
    unfolding update_sql_in_content_def
    using universal_newlines_no_CR [of s]
      update_sql_with_keeps_out [of REPLACEMENTS CR "universal_newlines s"] by blast
qed

lemma bak_differs: "p @ ''.bak'' \<noteq> p"
  by simp

lemma query_world_ok:
  "file_text (one_file_world query_text True True) handlers_go = Some query_text"
  "may_read handlers_go (one_file_world query_text True True)"
  "may_write handlers_go (one_file_world query_text True True)"
  "may_write (handlers_go @ ''.bak'') (one_file_world query_text True True)"
  by code_simp+

lemma query_text_renamed:
  "universal_newlines query_text = query_text"
  "fst (sql_loop COLUMN_MAPPINGS query_text 0) = backtick # ''team_id'' @ [backtick]"
  "fst (update_sql_in_content query_text) = backtick # ''team_id'' @ [backtick]"
  by code_simp+








section \<open>Lemmas on the blocks of a text\<close>

lemma upt_split_shift:
  "[0..<n + m] = [0..<n] @ map (\<lambda>i. n + i) [0..<m]"
proof -
  have "map (\<lambda>i. n + i) [0..<m] = map (\<lambda>i. i + n) [0..<m]"
    by (simp add: add.commute)
  also have "\<dots> = [n..<m + n]"
    by (rule map_add_upt)
  finally have "map (\<lambda>i. n + i) [0..<m] = [n..<n + m]"
    by (simp only: add.commute)
  moreover have "[0..<n + m] = [0..<n] @ [n..<n + m]"
    by (rule upt_add_eq_append) simp
  ultimately show ?thesis
    by (simp only:)
qed

lemma backtick_positions_append:
  "backtick_positions (xs @ ys) =
   backtick_positions xs @ map (\<lambda>i. length xs + i) (backtick_positions ys)"
proof -
  have a: "filter (\<lambda>i. (xs @ ys) ! i = backtick) [0..<length xs] =
      filter (\<lambda>i. xs ! i = backtick) [0..<length xs]"
    by (rule filter_cong) (simp_all add: nth_append)
  have b: "filter (\<lambda>i. (xs @ ys) ! i = backtick) (map (\<lambda>i. length xs + i) [0..<length ys]) =
      map (\<lambda>i. length xs + i) (filter (\<lambda>i. ys ! i = backtick) [0..<length ys])"
    by (simp add: filter_map comp_def)
  have "backtick_positions (xs @ ys) =
      filter (\<lambda>i. (xs @ ys) ! i = backtick)
        ([0..<length xs] @ map (\<lambda>i. length xs + i) [0..<length ys])"
    unfolding backtick_positions_def length_append upt_split_shift ..
  then show ?thesis
    unfolding filter_append a b backtick_positions_def .
qed

lemma backtick_positions_none: "backtick \<notin> set x \<Longrightarrow> backtick_positions x = []"
  unfolding backtick_positions_def filter_empty_conv using nth_mem by fastforce

lemma backtick_positions_single: "backtick_positions [backtick] = [0]"
  by (simp add: backtick_positions_def)

lemma backtick_positions_one:
  "backtick \<notin> set x \<Longrightarrow> backtick \<notin> set y \<Longrightarrow> backtick_positions (x @ backtick # y) = [length x]"
  using backtick_positions_append [of x "[backtick] @ y"]
    backtick_positions_append [of "[backtick]" y]
  by (simp add: backtick_positions_none backtick_positions_single)

lemma backtick_positions_block:
  assumes "backtick \<notin> set x" and "backtick \<notin> set b"
  shows "backtick_positions (x @ backtick # b @ backtick # rest) =
         length x # (length x + length b + 1)
           # map (\<lambda>i. length x + length b + 2 + i) (backtick_positions rest)"
proof -
  have "backtick_positions ((x @ backtick # b) @ [backtick] @ rest) =
        backtick_positions (x @ backtick # b)
          @ map (\<lambda>i. length (x @ backtick # b) + i) (backtick_positions ([backtick] @ rest))"
    by (rule backtick_positions_append)
  moreover have "backtick_positions ([backtick] @ rest) =
        0 # map (\<lambda>i. 1 + i) (backtick_positions rest)"
    using backtick_positions_append [of "[backtick]" rest]
    by (simp add: backtick_positions_single)
  ultimately show ?thesis
    using assms by (simp add: backtick_positions_one comp_def)
qed

lemma pairs_map: "pairs (map f ps) = map (map_prod f f) (pairs ps)"
  by (induction ps rule: pairs.induct) simp_all

lemma extract_sql_queries_block:
  assumes "backtick \<notin> set x" and "backtick \<notin> set b"
  shows "extract_sql_queries (x @ backtick # b @ backtick # rest) =
         (length x, length x + length b + 2, b)
           # map (shift (length x + length b + 2)) (extract_sql_queries rest)"
  using scan_queries_block [OF assms, of 0 rest]
    scan_queries_shift [of "length x + length b + 2" 0 rest]
  by (simp add: extract_sql_queries_def)

lemma span_between_shift:
  "length pre = k \<Longrightarrow>
   span_between (pre @ rest) (map_prod (\<lambda>i. k + i) (\<lambda>i. k + i) ab) =
   shift k (span_between rest ab)"
  by (cases ab) (simp add: span_between_def shift_def)

lemma extract_sql_queries_pairs:
  "extract_sql_queries s = map (span_between s) (pairs (backtick_positions s))"
proof (induction s rule: blocks_induct)
  case (none s)
  then show ?case
    by (simp add: extract_sql_queries_def scan_queries_none backtick_positions_none)
next
  case (one x y)
  then show ?case
    by (simp add: extract_sql_queries_def scan_queries_one backtick_positions_one)
next
  case (block x b rest)
  define k where "k = length x + length b + 2"
  define pre where "pre = x @ backtick # b @ [backtick]"
  have s: "x @ backtick # b @ backtick # rest = pre @ rest"
    by (simp add: pre_def)
  have len: "length pre = k"
    by (simp add: k_def pre_def)
  have first: "span_between (pre @ rest) (length x, length x + length b + 1) = (length x, k, b)"
    by (simp add: span_between_def k_def pre_def)
  have pos: "backtick_positions (pre @ rest) =
      length x # (length x + length b + 1) # map (\<lambda>i. k + i) (backtick_positions rest)"
    unfolding k_def s [symmetric] by (rule backtick_positions_block [OF block.hyps])
  have "map (span_between (pre @ rest)) (pairs (backtick_positions (pre @ rest))) =
        span_between (pre @ rest) (length x, length x + length b + 1)
          # map (span_between (pre @ rest)) (map (map_prod (\<lambda>i. k + i) (\<lambda>i. k + i))
              (pairs (backtick_positions rest)))"
    unfolding pos pairs.simps pairs_map list.map ..
  also have "\<dots> = (length x, k, b)
      # map (shift k) (map (span_between rest) (pairs (backtick_positions rest)))"
    unfolding first map_map comp_def span_between_shift [OF len] ..
  finally have "map (span_between (pre @ rest)) (pairs (backtick_positions (pre @ rest))) =
      (length x, k, b) # map (shift k) (extract_sql_queries rest)"
    unfolding block.IH .
  moreover have "extract_sql_queries (pre @ rest) =
      (length x, k, b) # map (shift k) (extract_sql_queries rest)"
    unfolding s [symmetric] k_def by (rule extract_sql_queries_block [OF block.hyps])
  ultimately show ?case
    unfolding s by simp
qed

lemma count_backtick_zero: "backtick \<notin> set x \<Longrightarrow> count_list x backtick = 0"
  by simp

lemma unpaired_backtick:
  assumes tail: "backtick \<notin> set tail" and ev: "even (count_list pre backtick)"
  shows "extract_sql_queries (pre @ backtick # tail) = extract_sql_queries pre \<and>
         update_sql_with table (pre @ backtick # tail) =
           (fst (update_sql_with table pre) @ backtick # tail, snd (update_sql_with table pre))"
  using ev
proof (induction pre rule: blocks_induct)
  case (none s)
  then show ?case
    using tail
    by (simp add: update_sql_with_none update_sql_with_one extract_sql_queries_def
        scan_queries_none scan_queries_one)
next
  case (one x y)
  then have "count_list (x @ backtick # y) backtick = 1"
    by simp
  then show ?case using one.prems by simp
next
  case (block x b rest)
  have "even (count_list rest backtick)"
    using block.prems block.hyps by simp
  then have ih: "extract_sql_queries (rest @ backtick # tail) = extract_sql_queries rest"
    "update_sql_with table (rest @ backtick # tail) =
       (fst (update_sql_with table rest) @ backtick # tail, snd (update_sql_with table rest))"
    using block.IH by simp_all
  have s: "(x @ backtick # b @ backtick # rest) @ backtick # tail =
           x @ backtick # b @ backtick # (rest @ backtick # tail)"
    by simp
  show ?case
    unfolding s extract_sql_queries_block [OF block.hyps] update_sql_with_block [OF block.hyps] ih
    by simp
qed

lemma extract_sql_queries_bound:
  "(start, en, sql) \<in> set (extract_sql_queries s) \<Longrightarrow> en \<le> length s"
proof (induction s arbitrary: start en sql rule: blocks_induct)
  case (none s)
  then show ?case by (simp add: extract_sql_queries_def scan_queries_none)
next
  case (one x y)
  then show ?case by (simp add: extract_sql_queries_def scan_queries_one)
next
  case (block x b rest)
  from block.prems
  consider "en = length x + length b + 2"
    | q where "q \<in> set (extract_sql_queries rest)"
        "(start, en, sql) = shift (length x + length b + 2) q"
    unfolding extract_sql_queries_block [OF block.hyps] by auto
  then show ?case
  proof cases
    case 1
    then show ?thesis by simp
  next
    case 2
    obtain a c t where q: "q = (a, c, t)" by (cases q)
    have "c \<le> length rest"
      using block.IH 2(1) q by blast
    then show ?thesis
      using 2(2) q by (simp add: shift_def)
  qed
qed

section \<open>Lemmas on overlapping tokens and the order of the entries\<close>

lemma find_token_Some:
  "find_token table s = Some (t, n) \<Longrightarrow> (t, n) \<in> set table \<and> t \<noteq> [] \<and> prefix t s"
  unfolding find_token_def by (auto simp: find_Some_iff dest: nth_mem)

lemma find_token_None:
  "find_token table s = None \<Longrightarrow> (t, n) \<in> set table \<Longrightarrow> t \<noteq> [] \<Longrightarrow> \<not> prefix t s"
  unfolding find_token_def by (auto simp: find_None_iff)

lemma find_token_NoneI:
  "(\<And>t n. (t, n) \<in> set table \<Longrightarrow> \<not> prefix t s) \<Longrightarrow> find_token table s = None"
  unfolding find_token_def by (auto simp: find_None_iff)

lemma find_token_unique:
  assumes sep: "separated table" and mem: "(t, n) \<in> set table" and pre: "prefix t s"
  shows "find_token table s = Some (t, n)"
proof (cases "find_token table s")
  case None
  then show ?thesis
    using find_token_None [OF None mem] separated_nonempty [OF sep mem] pre by simp
next
  case (Some e)
  obtain t' n' where e: "e = (t', n')" by (cases e)
  have f: "(t', n') \<in> set table" "prefix t' s"
    using find_token_Some [of table s t' n'] Some e by simp_all
  have "prefix t t' \<or> prefix t' t"
    using pre f(2) by (rule prefix_same_cases)
  then have "t = t' \<and> n = n'"
    using separated_prefix [OF sep mem f(1)] separated_prefix [OF sep f(1) mem] by auto
  then show ?thesis
    using Some e by simp
qed

lemma replace_every_Nil: "replace_every table [] = ([], 0)"
  by (simp add: replace_every.simps)

lemma replace_every_token:
  "find_token table s = Some (t, n) \<Longrightarrow>
   replace_every table s =
     (n @ fst (replace_every table (drop (length t) s)),
      Suc (snd (replace_every table (drop (length t) s))))"
proof -
  assume f: "find_token table s = Some (t, n)"
  then have "s \<noteq> []"
    using find_token_Some [OF f] by auto
  then show ?thesis
    using f by (subst replace_every.simps) (simp split: prod.splits)
qed

lemma replace_every_char:
  "find_token table (c # cs) = None \<Longrightarrow>
   replace_every table (c # cs) =
     (c # fst (replace_every table cs), snd (replace_every table cs))"
  by (subst replace_every.simps) (simp split: prod.splits)

lemma clean_Nil: "clean table []"
  by (simp add: clean.simps)

lemma clean_token:
  "find_token table s = Some (t, n) \<Longrightarrow>
   clean table s \<longleftrightarrow>
     (\<forall>i \<in> {1..<length t}. find_token table (drop i s) = None) \<and>
     clean table (drop (length t) s)"
proof -
  assume f: "find_token table s = Some (t, n)"
  then have "s \<noteq> []"
    using find_token_Some [OF f] by auto
  then show ?thesis
    using f by (subst clean.simps) simp
qed

lemma clean_char:
  "find_token table (c # cs) = None \<Longrightarrow> clean table (c # cs) \<longleftrightarrow> clean table cs"
  by (subst clean.simps) simp

text \<open>A stretch of text in which no token can start is copied.\<close>

lemma skip_prefix:
  assumes "\<And>t n. (t, n) \<in> set table \<Longrightarrow> t \<noteq> [] \<and> hd t \<notin> set a"
  shows "replace_every table (a @ r) =
           (a @ fst (replace_every table r), snd (replace_every table r)) \<and>
         (clean table (a @ r) \<longleftrightarrow> clean table r)"
  using assms
proof (induction a)
  case Nil
  then show ?case by simp
next
  case (Cons c a)
  have none: "find_token table (c # a @ r) = None"
  proof (rule find_token_NoneI)
    fix t n
    assume m: "(t, n) \<in> set table"
    then have "t \<noteq> []" "hd t \<noteq> c"
      using Cons.prems [OF m] by auto
    then show "\<not> prefix t (c # a @ r)"
      by (cases t) auto
  qed
  have "t \<noteq> [] \<and> hd t \<notin> set a" if "(t, n) \<in> set table" for t n
    using Cons.prems [OF that] by simp
  then have ih: "replace_every table (a @ r) =
           (a @ fst (replace_every table r), snd (replace_every table r))"
      "clean table (a @ r) \<longleftrightarrow> clean table r"
    using Cons.IH by blast+
  show ?case
    using replace_every_char [OF none] clean_char [OF none] ih by simp
qed

text \<open>Where the old token does not start, \<open>replace\<close> and \<open>count\<close> move on.\<close>

lemma replace_past:
  assumes "old \<noteq> []" and "k \<le> length s" and "\<And>i. i < k \<Longrightarrow> \<not> prefix old (drop i s)"
  shows "py_replace s old new = take k s @ py_replace (drop k s) old new \<and>
         py_count s old = py_count (drop k s) old"
  using assms(2,3)
proof (induction k arbitrary: s)
  case 0
  then show ?case by simp
next
  case (Suc k)
  then obtain c cs where s: "s = c # cs"
    by (cases s) auto
  have np: "\<not> prefix old (c # cs)"
    using Suc.prems(2) [of 0] s by simp
  have "\<not> prefix old (drop i cs)" if "i < k" for i
    using Suc.prems(2) [of "Suc i"] that s by simp
  then have "py_replace cs old new = take k cs @ py_replace (drop k cs) old new \<and>
         py_count cs old = py_count (drop k cs) old"
    using Suc.IH [of cs] Suc.prems(1) s by simp
  then show ?case
    using np assms(1) s by (simp add: py_replace_Cons py_count_Cons)
qed

text \<open>A token that starts in front of a replaced text started there before.\<close>

lemma token_before_replaced:
  assumes sep: "separated table" and mem: "(old, new) \<in> set table"
    and tok: "(t, n) \<in> set table" and pre: "prefix t (a @ py_replace r old new)"
  shows "prefix t (a @ r)"
proof -
  have old: "old \<noteq> []"
    using separated_nonempty [OF sep mem] .
  have ends: "hd t \<notin> set new \<and> last t \<notin> set new \<and> \<not> set new \<subseteq> set t"
    using separated_ends [OF sep tok mem] .
  from pre consider "prefix t a" | u where "t = a @ u" "prefix u (py_replace r old new)"
    by (auto simp: prefix_append)
  then show ?thesis
  proof cases
    case 1
    then show ?thesis by (simp add: prefix_prefix)
  next
    case 2
    have "u \<noteq> [] \<longrightarrow> last u \<notin> set new"
      using ends 2(1) by auto
    moreover have "\<not> set new \<subseteq> set u"
      using ends 2(1) by auto
    ultimately have "prefix u r"
      using prefix_replace_back [OF old 2(2)] by blast
    then show ?thesis
      using 2(1) by simp
  qed
qed

lemma replace_every_step:
  assumes sep: "separated table" and mem: "(old, new) \<in> set table"
  shows "clean table s \<Longrightarrow>
         fst (replace_every table (py_replace s old new)) = fst (replace_every table s) \<and>
         snd (replace_every table (py_replace s old new)) + py_count s old =
           snd (replace_every table s) \<and>
         clean table (py_replace s old new)"
proof (induction "length s" arbitrary: s rule: less_induct)
  case less
  have old: "old \<noteq> []"
    using separated_nonempty [OF sep mem] .
  show ?case
  proof (cases s)
    case Nil
    then show ?thesis
      using old by (simp add: py_replace_Nil py_count_Nil clean_Nil)
  next
    case (Cons c cs)
    show ?thesis
    proof (cases "find_token table s")
      case None
      have np: "\<not> prefix old (c # cs)"
        using find_token_None [OF None mem old] Cons by simp
      have r: "py_replace s old new = c # py_replace cs old new"
        and cnt: "py_count s old = py_count cs old"
        using np old Cons by (simp_all add: py_replace_Cons py_count_Cons)
      have "clean table cs"
        using less.prems None Cons by (simp add: clean_char)
      then have ih: "fst (replace_every table (py_replace cs old new)) = fst (replace_every table cs)"
        "snd (replace_every table (py_replace cs old new)) + py_count cs old =
           snd (replace_every table cs)"
        "clean table (py_replace cs old new)"
        using less.hyps [of cs] Cons by simp_all
      have none': "find_token table (c # py_replace cs old new) = None"
      proof (rule find_token_NoneI)
        fix t n
        assume tok: "(t, n) \<in> set table"
        show "\<not> prefix t (c # py_replace cs old new)"
        proof
          assume "prefix t (c # py_replace cs old new)"
          then have "prefix t ([c] @ py_replace cs old new)" by simp
          then have "prefix t ([c] @ cs)"
            by (rule token_before_replaced [OF sep mem tok])
          then show False
            using find_token_None [OF None tok separated_nonempty [OF sep tok]] Cons by simp
        qed
      qed
      show ?thesis
        unfolding r cnt
        using replace_every_char [OF none'] clean_char [OF none'] ih
          replace_every_char [of table c cs] None Cons
        by simp
    next
      case (Some e)
      obtain t n where e: "e = (t, n)" by (cases e)
      have f: "find_token table s = Some (t, n)"
        using Some e by simp
      have tok: "(t, n) \<in> set table" and t: "t \<noteq> []" and pt: "prefix t s"
        using find_token_Some [OF f] by simp_all
      let ?rest = "drop (length t) s"
      have s: "s = t @ ?rest"
        using pt by (metis append_eq_conv_conj prefix_def)
      have inside: "\<forall>i \<in> {1..<length t}. find_token table (drop i s) = None"
        and cl_rest: "clean table ?rest"
        using less.prems clean_token [OF f] by simp_all
      have "length ?rest < length s"
        using t Cons by simp
      then have ih: "fst (replace_every table (py_replace ?rest old new)) =
            fst (replace_every table ?rest)"
        "snd (replace_every table (py_replace ?rest old new)) + py_count ?rest old =
           snd (replace_every table ?rest)"
        "clean table (py_replace ?rest old new)"
        using less.hyps [of ?rest] cl_rest by simp_all
      have whole: "replace_every table s =
          (n @ fst (replace_every table ?rest), Suc (snd (replace_every table ?rest)))"
        by (rule replace_every_token [OF f])
      show ?thesis
      proof (cases "t = old")
        case True
        have n: "n = new"
          using separated_prefix [OF sep mem tok] True by simp
        have r: "py_replace s old new = new @ py_replace ?rest old new"
          and cnt: "py_count s old = Suc (py_count ?rest old)"
          using pt True old by (simp_all add: py_replace_prefix py_count_prefix)
        have "t' \<noteq> [] \<and> hd t' \<notin> set new" if "(t', n') \<in> set table" for t' n'
          using separated_nonempty [OF sep that] separated_ends [OF sep that mem] by simp
        then have sk: "replace_every table (new @ py_replace ?rest old new) =
            (new @ fst (replace_every table (py_replace ?rest old new)),
             snd (replace_every table (py_replace ?rest old new)))"
          "clean table (new @ py_replace ?rest old new) \<longleftrightarrow>
             clean table (py_replace ?rest old new)"
          using skip_prefix [of table new "py_replace ?rest old new"] by blast+
        show ?thesis
          unfolding r cnt whole sk using ih n by simp
      next
        case False
        have nowhere: "\<not> prefix old (drop i s)" if "i < length t" for i
        proof (cases "i = 0")
          case True
          show ?thesis
          proof
            assume "prefix old (drop i s)"
            then have "find_token table s = Some (old, new)"
              using find_token_unique [OF sep mem, of s] True by simp
            then show False
              using f False by simp
          qed
        next
          case False
          then have "find_token table (drop i s) = None"
            using inside that by simp
          then show ?thesis
            using find_token_None [OF _ mem old] by blast
        qed
        have len: "length t \<le> length s"
          using pt by (rule prefix_length_le)
        have "py_replace s old new = take (length t) s @ py_replace ?rest old new \<and>
              py_count s old = py_count ?rest old"
          using replace_past [OF old len, of new] nowhere by blast
        then have r: "py_replace s old new = t @ py_replace ?rest old new"
          and cnt: "py_count s old = py_count ?rest old"
          using s by (metis append_eq_conv_conj)+
        have f': "find_token table (t @ py_replace ?rest old new) = Some (t, n)"
          using find_token_unique [OF sep tok] by simp
        have inside': "find_token table (drop i (t @ py_replace ?rest old new)) = None"
          if "i \<in> {1..<length t}" for i
        proof (rule find_token_NoneI)
          fix t' n'
          assume tok': "(t', n') \<in> set table"
          have i: "i < length t" "0 < i"
            using that by simp_all
          have d: "drop i (t @ py_replace ?rest old new) = drop i t @ py_replace ?rest old new"
            using i by simp
          show "\<not> prefix t' (drop i (t @ py_replace ?rest old new))"
          proof
            assume "prefix t' (drop i (t @ py_replace ?rest old new))"
            then have "prefix t' (drop i t @ py_replace ?rest old new)"
              using d by simp
            then have "prefix t' (drop i t @ ?rest)"
              by (rule token_before_replaced [OF sep mem tok'])
            moreover have "drop i s = drop i t @ ?rest"
              using i by (subst s) simp
            ultimately have "prefix t' (drop i s)"
              by simp
            moreover have "find_token table (drop i s) = None"
              using inside that by simp
            ultimately show False
              using find_token_None [OF _ tok' separated_nonempty [OF sep tok']] by blast
          qed
        qed
        have re: "replace_every table (t @ py_replace ?rest old new) =
            (n @ fst (replace_every table (py_replace ?rest old new)),
             Suc (snd (replace_every table (py_replace ?rest old new))))"
          using replace_every_token [OF f'] by simp
        have cl: "clean table (t @ py_replace ?rest old new)"
          using clean_token [OF f'] inside' ih(3) by simp
        show ?thesis
          unfolding r cnt whole re using ih cl by simp
      qed
    qed
  qed
qed

lemma is_permutation_set: "is_permutation xs ys \<Longrightarrow> set xs = set ys"
proof (induction xs arbitrary: ys)
  case Nil
  then show ?case by simp
next
  case (Cons x xs)
  then have x: "x \<in> set ys" and "set xs = set (remove1 x ys)"
    by simp_all
  moreover have "insert x (set (remove1 x ys)) = set ys"
    using x by (induction ys) auto
  ultimately show ?case by simp
qed

lemma replace_every_absent:
  assumes "\<And>t n. (t, n) \<in> set table \<Longrightarrow> \<not> sublist t r"
  shows "replace_every table r = (r, 0)"
  using assms
proof (induction r)
  case Nil
  then show ?case by (simp add: replace_every_Nil)
next
  case (Cons c cs)
  have none: "find_token table (c # cs) = None"
  proof (rule find_token_NoneI)
    fix t n
    assume "(t, n) \<in> set table"
    then show "\<not> prefix t (c # cs)"
      using Cons.prems prefix_imp_sublist by blast
  qed
  have "\<not> sublist t cs" if "(t, n) \<in> set table" for t n
    using Cons.prems [OF that] by (auto simp: sublist_Cons_right)
  then have "replace_every table cs = (cs, 0)"
    by (rule Cons.IH)
  then show ?case
    using replace_every_char [OF none] by simp
qed

lemma replace_every_chain:
  assumes sep: "separated table" and sub: "set table' \<subseteq> set table"
  shows "clean table s \<Longrightarrow>
         fst (replace_every table (fst (sql_loop table' s 0))) = fst (replace_every table s) \<and>
         snd (replace_every table (fst (sql_loop table' s 0))) + snd (sql_loop table' s 0) =
           snd (replace_every table s) \<and>
         clean table (fst (sql_loop table' s 0))"
  using sub
proof (induction table' arbitrary: s)
  case Nil
  then show ?case by simp
next
  case (Cons e table')
  obtain old new where e: "e = (old, new)" by (cases e)
  have mem: "(old, new) \<in> set table"
    using Cons.prems(2) e by simp
  have old: "old \<noteq> []"
    using separated_nonempty [OF sep mem] .
  let ?s = "py_replace s old new"
  note st = replace_every_step [OF sep mem Cons.prems(1)]
  have sub': "set table' \<subseteq> set table"
    using Cons.prems(2) by simp
  note ih = Cons.IH [OF _ sub', of ?s]
  have loop: "sql_loop (e # table') s 0 = sql_loop table' ?s (py_count s old)"
    unfolding e using sql_loop_Cons [OF old, of new table' s 0] by simp
  have acc: "sql_loop table' ?s (py_count s old) =
      (fst (sql_loop table' ?s 0), py_count s old + snd (sql_loop table' ?s 0))"
    by (rule sql_loop_acc)
  show ?case
    unfolding loop acc using st ih by simp
qed

lemma sql_loop_replace_every:
  assumes sep: "separated table" and eq: "set table' = set table" and cl: "clean table s"
  shows "sql_loop table' s 0 = replace_every table s"
proof -
  let ?r = "fst (sql_loop table' s 0)"
  have sep': "separated table'"
    using sep separated_cong [OF eq] by simp
  have "\<not> sublist t ?r" if "(t, n) \<in> set table" for t n
    using separated_result_clean [OF sep', of t n s] that eq by simp
  then have "replace_every table ?r = (?r, 0)"
    by (rule replace_every_absent)
  moreover have "fst (replace_every table ?r) = fst (replace_every table s) \<and>
         snd (replace_every table ?r) + snd (sql_loop table' s 0) =
           snd (replace_every table s)"
    using replace_every_chain [OF sep _ cl, of table'] eq by simp
  ultimately show ?thesis
    by (simp add: prod_eq_iff)
qed

lemma occurrences_iff:
  "(i, j) \<in> set (occurrences table s) \<longleftrightarrow>
   i < length s \<and> (\<exists>(t, n) \<in> set table. prefix t (drop i s) \<and> j = i + length t)"
  unfolding occurrences_def by auto

lemma no_overlapD:
  assumes "no_overlap table s"
    and "(t, n) \<in> set table" and "prefix t (drop i s)" and "i < length s"
    and "(t', n') \<in> set table" and "prefix t' (drop i' s)" and "i' < length s"
    and "i < i'"
  shows "i + length t \<le> i'"
proof -
  have a: "(i, i + length t) \<in> set (occurrences table s)"
    unfolding occurrences_iff using assms(2-4) by blast
  have b: "(i', i' + length t') \<in> set (occurrences table s)"
    unfolding occurrences_iff using assms(5-7) by blast
  from assms(1) have "\<forall>(i, j) \<in> set (occurrences table s). \<forall>(i', j') \<in> set (occurrences table s).
        i < i' \<longrightarrow> j \<le> i'"
    unfolding no_overlap_def .
  from bspec [OF this a, unfolded prod.case] have
    "\<forall>(i', j') \<in> set (occurrences table s). i < i' \<longrightarrow> i + length t \<le> i'" .
  from bspec [OF this b, unfolded prod.case] assms(8) show ?thesis
    by simp
qed

lemma no_overlapI:
  assumes "\<And>t n i t' n' i'. (t, n) \<in> set table \<Longrightarrow> prefix t (drop i s) \<Longrightarrow> i < length s \<Longrightarrow>
     (t', n') \<in> set table \<Longrightarrow> prefix t' (drop i' s) \<Longrightarrow> i' < length s \<Longrightarrow> i < i' \<Longrightarrow>
     i + length t \<le> i'"
  shows "no_overlap table s"
  unfolding no_overlap_def
proof (intro ballI, clarify)
  fix i j i' j'
  assume a: "(i, j) \<in> set (occurrences table s)" and b: "(i', j') \<in> set (occurrences table s)"
    and lt: "i < i'"
  from a obtain t n where t: "(t, n) \<in> set table" "prefix t (drop i s)" "j = i + length t"
    "i < length s"
    unfolding occurrences_iff by blast
  from b obtain t' n' where t': "(t', n') \<in> set table" "prefix t' (drop i' s)" "i' < length s"
    unfolding occurrences_iff by blast
  show "j \<le> i'"
    using assms [OF t(1,2,4) t' lt] t(3) by simp
qed

lemma no_overlap_part:
  assumes "no_overlap table (x @ b @ y)"
  shows "no_overlap table b"
proof (rule no_overlapI)
  fix t n i t' n' i'
  assume a: "(t, n) \<in> set table" "prefix t (drop i b)" "i < length b"
    and b: "(t', n') \<in> set table" "prefix t' (drop i' b)" "i' < length b"
    and lt: "i < i'"
  have d: "drop (length x + k) (x @ b @ y) = drop k b @ y" if "k < length b" for k
    using that by simp
  have "prefix t (drop (length x + i) (x @ b @ y))"
    unfolding d [OF a(3)] using a(2) by (rule prefix_prefix)
  moreover have "prefix t' (drop (length x + i') (x @ b @ y))"
    unfolding d [OF b(3)] using b(2) by (rule prefix_prefix)
  ultimately have "length x + i + length t \<le> length x + i'"
    using no_overlapD [OF assms a(1) _ _ b(1), of "length x + i" "length x + i'"] a(3) b(3) lt
    by simp
  then show "i + length t \<le> i'"
    by simp
qed

lemma no_overlap_clean:
  assumes sep: "separated table"
  shows "no_overlap table s \<Longrightarrow> clean table s"
proof (induction "length s" arbitrary: s rule: less_induct)
  case less
  show ?case
  proof (cases s)
    case Nil
    then show ?thesis by (simp add: clean_Nil)
  next
    case (Cons c cs)
    show ?thesis
    proof (cases "find_token table s")
      case None
      have "no_overlap table cs"
        using no_overlap_part [of table "[c]" cs "[]"] less.prems Cons by simp
      then have "clean table cs"
        using less.hyps [of cs] Cons by simp
      then show ?thesis
        using None Cons by (simp add: clean_char)
    next
      case (Some e)
      obtain t n where e: "e = (t, n)" by (cases e)
      have f: "find_token table s = Some (t, n)"
        using Some e by simp
      have tok: "(t, n) \<in> set table" and t: "t \<noteq> []" and pt: "prefix t s"
        using find_token_Some [OF f] by simp_all
      let ?rest = "drop (length t) s"
      have s: "s = t @ ?rest"
        using pt by (metis append_eq_conv_conj prefix_def)
      have "no_overlap table ?rest"
        using no_overlap_part [of table t ?rest "[]"] less.prems s by simp
      moreover have "length ?rest < length s"
        using t Cons by simp
      ultimately have rest: "clean table ?rest"
        using less.hyps [of ?rest] by simp
      have inside: "find_token table (drop i s) = None" if "i \<in> {1..<length t}" for i
      proof (rule find_token_NoneI)
        fix t' n'
        assume tok': "(t', n') \<in> set table"
        have len: "length t \<le> length s"
          using pt by (rule prefix_length_le)
        show "\<not> prefix t' (drop i s)"
        proof
          assume "prefix t' (drop i s)"
          then have "0 + length t \<le> i"
            using no_overlapD [OF less.prems tok _ _ tok', of 0 i] pt that len Cons by simp
          then show False
            using that by simp
        qed
      qed
      show ?thesis
        using clean_token [OF f] inside rest by simp
    qed
  qed
qed

lemma update_sql_with_any_order:
  assumes sep: "separated table" and eq: "set table' = set table"
  shows "no_overlap table s \<Longrightarrow> update_sql_with table' s = update_sql_with table s"
proof (induction s rule: blocks_induct)
  case (none s)
  then show ?case by (simp add: update_sql_with_none)
next
  case (one x y)
  then show ?case by (simp add: update_sql_with_one)
next
  case (block x b rest)
  have "no_overlap table ((x @ [backtick]) @ b @ (backtick # rest))"
    using block.prems by simp
  then have "no_overlap table b"
    by (rule no_overlap_part)
  then have cb: "clean table b"
    by (rule no_overlap_clean [OF sep])
  have b: "sql_loop table' b 0 = sql_loop table b 0"
    using sql_loop_replace_every [OF sep eq cb] sql_loop_replace_every [OF sep refl cb] by simp
  have "no_overlap table ((x @ backtick # b @ [backtick]) @ rest @ [])"
    using block.prems by simp
  then have "no_overlap table rest"
    by (rule no_overlap_part)
  then have r: "update_sql_with table' rest = update_sql_with table rest"
    by (rule block.IH)
  show ?case
    unfolding update_sql_with_block [OF block.hyps] b r ..
qed

lemma update_sql_with_few:
  assumes "count_list rest backtick \<le> 1"
  shows "update_sql_with table rest = (rest, 0)"
proof (cases rest rule: backtick_cases)
  case none
  then show ?thesis by (simp add: update_sql_with_none)
next
  case (one x y)
  then show ?thesis by (simp add: update_sql_with_one)
next
  case (block x b r)
  then have "2 \<le> count_list rest backtick"
    by simp
  then show ?thesis using assms by simp
qed

lemma update_sql_with_assemble:
  assumes "segments_ok segs rest"
  shows "update_sql_with table (assemble segs rest) =
    (assemble (map (\<lambda>(outside, block). (outside, fst (sql_loop table block 0))) segs) rest,
     sum_list (map (\<lambda>(outside, block). snd (sql_loop table block 0)) segs))"
  using assms
proof (induction segs)
  case Nil
  then show ?case
    by (simp add: segments_ok_def update_sql_with_few)
next
  case (Cons seg segs)
  obtain outside block where seg: "seg = (outside, block)" by (cases seg)
  have ob: "backtick \<notin> set outside" "backtick \<notin> set block"
    using Cons.prems seg by (simp_all add: segments_ok_def)
  have "segments_ok segs rest"
    using Cons.prems by (simp add: segments_ok_def)
  then have ih: "update_sql_with table (assemble segs rest) =
    (assemble (map (\<lambda>(outside, block). (outside, fst (sql_loop table block 0))) segs) rest,
     sum_list (map (\<lambda>(outside, block). snd (sql_loop table block 0)) segs))"
    by (rule Cons.IH)
  have "update_sql_with table (outside @ backtick # block @ backtick # assemble segs rest) =
    (outside @ backtick # fst (sql_loop table block 0) @ backtick
       # fst (update_sql_with table (assemble segs rest)),
     snd (update_sql_with table (assemble segs rest)) + snd (sql_loop table block 0))"
    using ob by (rule update_sql_with_block)
  then show ?case
    unfolding seg ih by simp
qed

lemma every_text_assembles: "\<exists>segs rest. segments_ok segs rest \<and> s = assemble segs rest"
proof (induction s rule: blocks_induct)
  case (none s)
  then have "segments_ok [] s \<and> s = assemble [] s"
    by (simp add: segments_ok_def)
  then show ?case by blast
next
  case (one x y)
  then have "segments_ok [] (x @ backtick # y) \<and> x @ backtick # y = assemble [] (x @ backtick # y)"
    by (simp add: segments_ok_def)
  then show ?case by blast
next
  case (block x b r)
  then obtain segs rest where sr: "segments_ok segs rest" "r = assemble segs rest"
    by blast
  have "segments_ok ((x, b) # segs) rest \<and>
        x @ backtick # b @ backtick # r = assemble ((x, b) # segs) rest"
    using sr block.hyps by (simp add: segments_ok_def)
  then show ?case by blast
qed

lemma permutation_COLUMN_MAPPINGS: "is_permutation COLUMN_MAPPINGS REPLACEMENTS"
  by code_simp

lemma overlap_text_results:
  "sql_loop COLUMN_MAPPINGS overlap_text 0 = ([dq] @ ''providerIdcreated_at'', 1)"
  "sql_loop REPLACEMENTS overlap_text 0 = (''provider_idcreatedAt'' @ [dq], 1)"
  by code_simp+

lemma overlap_query_facts:
  "extract_sql_queries overlap_query = [(0, 17, quoted ''teamId'' @ ''userId'' @ [dq])]"
  "prefix (quoted ''userId'') (drop 7 (quoted ''teamId'' @ ''userId'' @ [dq]))"
  "update_sql_in_content overlap_query = ([backtick] @ ''team_iduserId'' @ [dq] @ [backtick], 1)"
  "\<not> sublist ''user_id'' ([backtick] @ ''team_iduserId'' @ [dq] @ [backtick])"
  by code_simp+

lemma length_occurrences:
  "length (occurrences table s) = sum_list (map (starts_at table s) [0..<length s])"
  unfolding occurrences_def starts_at_def
  by (simp add: length_concat comp_def)

lemma starts_at_drop: "starts_at table s (k + i) = starts_at table (drop k s) i"
  by (simp add: starts_at_def add.commute)

lemma length_occurrences_split:
  assumes "k \<le> length s"
  shows "length (occurrences table s) =
         sum_list (map (starts_at table s) [0..<k]) + length (occurrences table (drop k s))"
proof -
  have "[0..<length s] = [0..<k] @ map (\<lambda>i. k + i) [0..<length s - k]"
    using upt_split_shift [of k "length s - k"] assms by simp
  then show ?thesis
    unfolding length_occurrences
    by (simp add: comp_def starts_at_drop)
qed

lemma starts_at_none:
  assumes "separated table" and "find_token table (drop i s) = None"
  shows "starts_at table s i = 0"
proof -
  have "\<not> prefix t (drop i s)" if "(t, n) \<in> set table" for t n
    using find_token_None [OF assms(2) that separated_nonempty [OF assms(1) that]] .
  then have "filter (\<lambda>(old, new). prefix old (drop i s)) table = []"
    unfolding filter_empty_conv by blast
  then show ?thesis
    by (simp add: starts_at_def)
qed

lemma starts_at_token:
  assumes sep: "separated table" and dist: "distinct table"
    and f: "find_token table s = Some (t, n)"
  shows "starts_at table s 0 = 1"
proof -
  have tok: "(t, n) \<in> set table" "prefix t s"
    using find_token_Some [OF f] by simp_all
  have "{x. (case x of (old, new) \<Rightarrow> prefix old s)} \<inter> set table = {(t, n)}"
  proof (rule equalityI; rule subsetI)
    fix x
    assume x: "x \<in> {x. (case x of (old, new) \<Rightarrow> prefix old s)} \<inter> set table"
    obtain t' n' where x': "x = (t', n')" by (cases x)
    have "find_token table s = Some (t', n')"
      using find_token_unique [OF sep, of t' n' s] x x' by simp
    then show "x \<in> {(t, n)}"
      using f x' by simp
  next
    fix x
    assume "x \<in> {(t, n)}"
    then show "x \<in> {x. (case x of (old, new) \<Rightarrow> prefix old s)} \<inter> set table"
      using tok by simp
  qed
  then show ?thesis
    unfolding starts_at_def using distinct_length_filter [OF dist, of "\<lambda>(old, new). prefix old s"]
    by simp
qed

lemma replace_every_counts_occurrences:
  assumes sep: "separated table" and dist: "distinct table"
  shows "clean table s \<Longrightarrow> snd (replace_every table s) = length (occurrences table s)"
proof (induction "length s" arbitrary: s rule: less_induct)
  case less
  show ?case
  proof (cases s)
    case Nil
    then show ?thesis
      by (simp add: replace_every_Nil occurrences_def)
  next
    case (Cons c cs)
    show ?thesis
    proof (cases "find_token table s")
      case None
      have "clean table cs"
        using less.prems None Cons by (simp add: clean_char)
      then have ih: "snd (replace_every table cs) = length (occurrences table cs)"
        using less.hyps [of cs] Cons by simp
      have "starts_at table s 0 = 0"
        using starts_at_none [OF sep, of 0 s] None by simp
      then have "length (occurrences table s) = length (occurrences table cs)"
        using length_occurrences_split [of 1 s table] Cons by simp
      then show ?thesis
        using replace_every_char [of table c cs] None Cons ih by simp
    next
      case (Some e)
      obtain t n where e: "e = (t, n)" by (cases e)
      have f: "find_token table s = Some (t, n)"
        using Some e by simp
      have t: "t \<noteq> []" and pt: "prefix t s"
        using find_token_Some [OF f] by simp_all
      let ?rest = "drop (length t) s"
      have inside: "\<forall>i \<in> {1..<length t}. find_token table (drop i s) = None"
        and cl_rest: "clean table ?rest"
        using less.prems clean_token [OF f] by simp_all
      have "length ?rest < length s"
        using t Cons by simp
      then have ih: "snd (replace_every table ?rest) = length (occurrences table ?rest)"
        using less.hyps [of ?rest] cl_rest by simp
      have len: "length t \<le> length s"
        using pt by (rule prefix_length_le)
      have "[0..<length t] = 0 # [1..<length t]"
        using t by (simp add: upt_rec)
      moreover have "map (starts_at table s) [1..<length t] = map (\<lambda>i. 0) [1..<length t]"
        by (rule map_cong) (use inside starts_at_none [OF sep] in auto)
      ultimately have "sum_list (map (starts_at table s) [0..<length t]) = 1"
        using starts_at_token [OF sep dist f] by simp
      then have "length (occurrences table s) = Suc (length (occurrences table ?rest))"
        using length_occurrences_split [OF len, of table] by simp
      then show ?thesis
        using replace_every_token [OF f] ih by simp
    qed
  qed
qed

lemma distinct_REPLACEMENTS: "distinct REPLACEMENTS"
  by code_simp

section \<open>The replacement pass\<close>

lemma token_freeD: "token_free table s \<Longrightarrow> (old, new) \<in> set table \<Longrightarrow> \<not> sublist old s"
  unfolding token_free_def by blast

lemma update_loop_token_free:
  assumes "separated table" and "token_free table s"
  shows "update_loop table s rm w = (s, rm, w)"
proof (rule update_loop_absent)
  show "old \<noteq> [] \<and> \<not> sublist old s" if "(old, new) \<in> set table" for old new
    using separated_nonempty [OF assms(1) that] token_freeD [OF assms(2) that] by simp
qed

lemma update_sql_with_token_free:
  assumes "separated table" and "token_free table s"
  shows "update_sql_with table s = (s, 0)"
proof (rule update_sql_with_absent)
  show "old \<noteq> [] \<and> \<not> sublist old s" if "(old, new) \<in> set table" for old new
    using separated_nonempty [OF assms(1) that] token_freeD [OF assms(2) that] by simp
qed

lemma update_loop_idempotent:
  assumes "separated table"
  shows "update_loop table (fst (update_loop table content 0 w)) 0 w' =
         (fst (update_loop table content 0 w), 0, w')"
proof -
  have eq: "fst (update_loop table content 0 w) = fst (sql_loop table content 0)"
    by (subst update_loop_sql_loop) simp
  show ?thesis
    unfolding eq
  proof (rule update_loop_absent)
    show "old \<noteq> [] \<and> \<not> sublist old (fst (sql_loop table content 0))"
      if "(old, new) \<in> set table" for old new
      using separated_nonempty [OF assms that] separated_result_clean [OF assms that] by simp
  qed
qed

lemma example_unrestricted: "sql_loop COLUMN_MAPPINGS example_input 0 = (example_output, 2)"
  by code_simp

lemma example_delimited_bare: "update_sql_in_content example_input = (example_input, 0)"
  by code_simp

lemma example_delimited_block:
  "update_sql_in_content (backtick # example_input @ [backtick]) =
   (backtick # example_output @ [backtick], 2)"
  by code_simp

text \<open>
  Claim C2, as stated: the text \<^verbatim>\<open>SELECT "userId", "teamId" FROM posts\<close> becomes
  \<^verbatim>\<open>SELECT user_id, team_id FROM posts\<close> with a count of 2 in both variants, delimited
  mode included. In delimited mode it does not: the text has no backtick, so it has no
  block, and it comes back as it went in with a count of 0.
\<close>

theorem example_delimited_counterexample:
  "update_sql_in_content example_input = (example_input, 0) \<and> example_input \<noteq> example_output"
proof
  show "update_sql_in_content example_input = (example_input, 0)"
    by (rule example_delimited_bare)
  show "example_input \<noteq> example_output"
    by code_simp
qed

text \<open>
  Claim C2, amended: the unrestricted loop of \<open>update_file\<close> turns the example into
  \<^verbatim>\<open>SELECT user_id, team_id FROM posts\<close> and counts 2 replacements;
  \<open>update_sql_in_content\<close> does the same to the example when it stands between two
  backticks, and leaves the bare example unchanged with a count of 0.
\<close>

theorem example_both_variants:
  "fst (update_loop COLUMN_MAPPINGS example_input 0 w) = example_output \<and>
   fst (snd (update_loop COLUMN_MAPPINGS example_input 0 w)) = 2 \<and>
   update_sql_in_content (backtick # example_input @ [backtick]) =
     (backtick # example_output @ [backtick], 2) \<and>
   update_sql_in_content example_input = (example_input, 0)"
proof -
  have "fst (update_loop COLUMN_MAPPINGS example_input 0 w) = example_output \<and>
        fst (snd (update_loop COLUMN_MAPPINGS example_input 0 w)) = 2"
    using example_unrestricted by (subst (1 2) update_loop_sql_loop) simp
  then show ?thesis
    using example_delimited_block example_delimited_bare by simp
qed

text \<open>
  Claim C4: the pass applied to its own output changes nothing and counts nothing, in
  both variants. For \<open>update_sql_in_content\<close> the second run returns the first run's text
  with a count of 0; for the loop of \<open>update_file\<close> the second run returns the first
  run's text with a count of 0 and prints no replacement line.
\<close>

theorem pass_idempotent:
  "update_sql_in_content (fst (update_sql_in_content content)) =
     (fst (update_sql_in_content content), 0) \<and>
   update_loop COLUMN_MAPPINGS (fst (update_loop COLUMN_MAPPINGS content 0 w)) 0 w' =
     (fst (update_loop COLUMN_MAPPINGS content 0 w), 0, w')"
proof
  show "update_sql_in_content (fst (update_sql_in_content content)) =
     (fst (update_sql_in_content content), 0)"
    unfolding update_sql_in_content_def
    using separated_REPLACEMENTS backtick_free_REPLACEMENTS by (rule update_sql_with_idempotent)
  show "update_loop COLUMN_MAPPINGS (fst (update_loop COLUMN_MAPPINGS content 0 w)) 0 w' =
     (fst (update_loop COLUMN_MAPPINGS content 0 w), 0, w')"
    using separated_COLUMN_MAPPINGS by (rule update_loop_idempotent)
qed

text \<open>
  Claim C7: a text in which no old token of the table occurs comes back unchanged with a
  count of zero, from the loop of \<open>update_file\<close> (which then prints nothing) and from
  \<open>update_sql_in_content\<close>.
\<close>

theorem no_token_no_change:
  "(token_free COLUMN_MAPPINGS content \<longrightarrow>
      update_loop COLUMN_MAPPINGS content 0 w = (content, 0, w)) \<and>
   (token_free REPLACEMENTS content \<longrightarrow> update_sql_in_content content = (content, 0))"
proof (intro conjI impI)
  assume "token_free COLUMN_MAPPINGS content"
  with separated_COLUMN_MAPPINGS show "update_loop COLUMN_MAPPINGS content 0 w = (content, 0, w)"
    by (rule update_loop_token_free)
next
  assume "token_free REPLACEMENTS content"
  with separated_REPLACEMENTS show "update_sql_in_content content = (content, 0)"
    unfolding update_sql_in_content_def by (rule update_sql_with_token_free)
qed

theorem no_token_no_change_witness:
  "token_free COLUMN_MAPPINGS plain_input \<and> token_free REPLACEMENTS plain_input \<and>
   update_loop COLUMN_MAPPINGS plain_input 0 empty_world = (plain_input, 0, empty_world) \<and>
   update_sql_in_content plain_input = (plain_input, 0)"
proof -
  have a: "token_free COLUMN_MAPPINGS plain_input"
    by code_simp
  have b: "token_free REPLACEMENTS plain_input"
    by code_simp
  show ?thesis
    using a b no_token_no_change [of plain_input empty_world] by simp
qed

section \<open>Files, backups and failures\<close>

text \<open>
  Claim C3 says that the backup equals the file as it was before the run, byte for
  byte. Both scripts read the file in text mode and write what they read: for a file
  that holds \<open>a\r\nb\<close> the backup holds \<open>a\nb\<close>.
\<close>

theorem backup_of_crlf_file:
  "file_text (one_file_world crlf_text True True) handlers_go = Some (''a'' @ [CR, LF] @ ''b'') \<and>
   file_text (snd (update_file handlers_go (one_file_world crlf_text True True)))
     (handlers_go @ ''.bak'') = Some (''a'' @ [LF] @ ''b'') \<and>
   file_text (snd (process_file handlers_go (one_file_world crlf_text True True)))
     (handlers_go @ ''.bak'') = Some (''a'' @ [LF] @ ''b'')"
  by code_simp





text \<open>
  Claim C9, as stated: after a second consecutive run the original content can no longer
  be recovered from the backup. It can when the first run changed nothing: for the
  text \<^verbatim>\<open>SELECT id FROM posts\<close>, which holds no old token, the backup after two runs
  of either script is the original text.
\<close>

theorem backup_after_two_runs_counterexample:
  "file_text (one_file_world plain_input True True) handlers_go = Some plain_input \<and>
   file_text (snd (update_file handlers_go
       (snd (update_file handlers_go (one_file_world plain_input True True)))))
     (handlers_go @ ''.bak'') = Some plain_input \<and>
   file_text (snd (process_file handlers_go
       (snd (process_file handlers_go (one_file_world plain_input True True)))))
     (handlers_go @ ''.bak'') = Some plain_input"
  by code_simp

text \<open>
  Claim C9, amended: a file that the run can read (it is there, may be opened and
  decodes), that it may write together with its backup, and that holds no carriage
  return. Every run overwrites the backup with the content the file has at that
  moment, whatever the number of replacements; the file then holds the transformed
  text, so after a second run the backup holds the once-transformed text, and it
  equals the original content exactly when the first run changed nothing.
\<close>

theorem backup_holds_previous_content:
  assumes "file_text w p = Some original"
    and "may_read p w" and "may_write p w" and "may_write (p @ ''.bak'') w"
    and "CR \<notin> set original"
  shows
    "file_text (snd (update_file p w)) (p @ ''.bak'') = Some original \<and>
     file_text (snd (update_file p w)) p =
       Some (fst (update_loop COLUMN_MAPPINGS original 0 w)) \<and>
     file_text (snd (update_file p (snd (update_file p w)))) (p @ ''.bak'') =
       Some (fst (update_loop COLUMN_MAPPINGS original 0 w)) \<and>
     (file_text (snd (update_file p (snd (update_file p w)))) (p @ ''.bak'') = Some original
        \<longleftrightarrow> fst (update_loop COLUMN_MAPPINGS original 0 w) = original) \<and>
     file_text (snd (process_file p w)) (p @ ''.bak'') = Some original \<and>
     file_text (snd (process_file p w)) p = Some (fst (update_sql_in_content original)) \<and>
     file_text (snd (process_file p (snd (process_file p w)))) (p @ ''.bak'') =
       Some (fst (update_sql_in_content original)) \<and>
     (file_text (snd (process_file p (snd (process_file p w)))) (p @ ''.bak'') = Some original
        \<longleftrightarrow> fst (update_sql_in_content original) = original)"
proof -
  have nl: "universal_newlines original = original"
    using assms(5) by (rule universal_newlines_id)
  let ?w1 = "snd (update_file p w)" and ?v1 = "snd (process_file p w)"
  have ul: "fst (update_loop COLUMN_MAPPINGS original 0 w) = fst (sql_loop COLUMN_MAPPINGS original 0)"
    by (subst update_loop_sql_loop) simp
  note r1 = update_file_result [OF assms(2-4)]
  have a1: "file_text ?w1 (p @ ''.bak'') = Some original"
    using r1(2) [of "p @ ''.bak''"] assms(1) nl by simp
  have a2: "file_text ?w1 p = Some (fst (sql_loop COLUMN_MAPPINGS original 0))"
    using r1(2) [of p] assms(1) nl by simp
  have "may_write p ?w1" "may_write (p @ ''.bak'') ?w1"
    using r1(4) assms(3,4) by simp_all
  note r2 = update_file_result [OF r1(3) this]
  have a3: "file_text (snd (update_file p ?w1)) (p @ ''.bak'') =
      Some (fst (sql_loop COLUMN_MAPPINGS original 0))"
    using r2(2) [of "p @ ''.bak''"] a2 second_read_unrestricted [of original] nl by simp
  note s1 = process_file_result [OF assms(2-4)]
  have b1: "file_text ?v1 (p @ ''.bak'') = Some original"
    using s1(2) [of "p @ ''.bak''"] assms(1) nl by simp
  have b2: "file_text ?v1 p = Some (fst (update_sql_in_content original))"
    using s1(2) [of p] assms(1) nl by simp
  have "may_write p ?v1" "may_write (p @ ''.bak'') ?v1"
    using s1(4) assms(3,4) by simp_all
  note s2 = process_file_result [OF s1(3) this]
  have b3: "file_text (snd (process_file p ?v1)) (p @ ''.bak'') =
      Some (fst (update_sql_in_content original))"
    using s2(2) [of "p @ ''.bak''"] b2 second_read_delimited [of original] nl by simp
  show ?thesis
    unfolding a1 a2 a3 b1 b2 b3 ul by simp
qed

theorem backup_holds_previous_content_witness:
  "file_text (one_file_world query_text True True) handlers_go = Some query_text \<and>
   CR \<notin> set query_text \<and>
   file_text (snd (update_file handlers_go (one_file_world query_text True True)))
     (handlers_go @ ''.bak'') = Some query_text \<and>
   file_text (snd (update_file handlers_go
       (snd (update_file handlers_go (one_file_world query_text True True)))))
     (handlers_go @ ''.bak'') = Some (backtick # ''team_id'' @ [backtick]) \<and>
   file_text (snd (process_file handlers_go (one_file_world query_text True True)))
     (handlers_go @ ''.bak'') = Some query_text \<and>
   file_text (snd (process_file handlers_go
       (snd (process_file handlers_go (one_file_world query_text True True)))))
     (handlers_go @ ''.bak'') = Some (backtick # ''team_id'' @ [backtick])"
proof -
  have cr: "CR \<notin> set query_text"
    by code_simp
  have "fst (update_loop COLUMN_MAPPINGS query_text 0 (one_file_world query_text True True)) =
        backtick # ''team_id'' @ [backtick]"
    using query_text_renamed(2) by (subst update_loop_sql_loop) simp
  then show ?thesis
    using backup_holds_previous_content [OF query_world_ok cr] query_text_renamed
      query_world_ok(1) cr
    by simp
qed

section \<open>Blocks\<close>

text \<open>
  Claim C10: the matches of \<open>extract_sql_queries\<close> are the spans between the backticks
  of the text paired from the left, so each holds no backtick and nothing can extend
  it. When the number of backticks is odd, the last one has no partner: with \<open>tail\<close>
  the text behind it, the matches are those of the text before it, every match ends
  before it, and \<open>update_sql_in_content\<close> returns the rewritten text before it followed
  by that backtick and \<open>tail\<close> unchanged.
\<close>

theorem blocks_pair_backticks_from_the_left:
  "extract_sql_queries s = map (span_between s) (pairs (backtick_positions s)) \<and>
   (backtick \<notin> set tail \<and> odd (count_list (pre @ backtick # tail) backtick) \<longrightarrow>
      extract_sql_queries (pre @ backtick # tail) = extract_sql_queries pre \<and>
      (\<forall>(start, en, sql) \<in> set (extract_sql_queries (pre @ backtick # tail)). en \<le> length pre) \<and>
      update_sql_in_content (pre @ backtick # tail) =
        (fst (update_sql_in_content pre) @ backtick # tail, snd (update_sql_in_content pre)))"
proof (intro conjI impI)
  show "extract_sql_queries s = map (span_between s) (pairs (backtick_positions s))"
    by (rule extract_sql_queries_pairs)
next
  assume a: "backtick \<notin> set tail \<and> odd (count_list (pre @ backtick # tail) backtick)"
  then have tail: "backtick \<notin> set tail" and ev: "even (count_list pre backtick)"
    by simp_all
  note u = unpaired_backtick [OF tail ev]
  show "extract_sql_queries (pre @ backtick # tail) = extract_sql_queries pre"
    using u by simp
  show "\<forall>(start, en, sql) \<in> set (extract_sql_queries (pre @ backtick # tail)). en \<le> length pre"
    using u extract_sql_queries_bound [of _ _ _ pre] by auto
  show "update_sql_in_content (pre @ backtick # tail) =
        (fst (update_sql_in_content pre) @ backtick # tail, snd (update_sql_in_content pre))"
    unfolding update_sql_in_content_def using u by simp
qed

theorem blocks_pair_backticks_from_the_left_witness:
  "backtick \<notin> set unpaired_tail \<and>
   odd (count_list (unpaired_pre @ backtick # unpaired_tail) backtick) \<and>
   extract_sql_queries (unpaired_pre @ backtick # unpaired_tail) = [(1, 11, quoted ''teamId'')] \<and>
   update_sql_in_content (unpaired_pre @ backtick # unpaired_tail) =
     (''x'' @ [backtick] @ ''team_id'' @ [backtick] @ ''y'' @ [backtick] @ quoted ''teamId'', 1)"
proof -
  have a: "backtick \<notin> set unpaired_tail"
    by code_simp
  have b: "odd (count_list (unpaired_pre @ backtick # unpaired_tail) backtick)"
    by code_simp
  have c: "extract_sql_queries unpaired_pre = [(1, 11, quoted ''teamId'')]"
    by code_simp
  have d: "update_sql_in_content unpaired_pre =
      (''x'' @ [backtick] @ ''team_id'' @ [backtick] @ ''y'', 1)"
    by code_simp
  show ?thesis
    using a b c d
      blocks_pair_backticks_from_the_left [of unpaired_pre unpaired_tail unpaired_pre]
    by (simp add: unpaired_tail_def)
qed

section \<open>Overlapping occurrences and the order of the entries\<close>

text \<open>
  Claim C1, as stated: every occurrence of an old token inside a block is replaced by its
  new token. Two occurrences can share a quote character: in the block
  \<^verbatim>\<open>"teamId"userId"\<close> the token \<^verbatim>\<open>"userId"\<close> occurs at offset 7. The entry for \<^verbatim>\<open>"teamId"\<close>
  is applied first and takes the shared quote away; the occurrence of \<^verbatim>\<open>"userId"\<close> is
  not replaced, and \<^verbatim>\<open>user_id\<close> is nowhere in the output.
\<close>

theorem overlapping_token_counterexample:
  "extract_sql_queries overlap_query = [(0, 17, quoted ''teamId'' @ ''userId'' @ [dq])] \<and>
   prefix (quoted ''userId'') (drop 7 (quoted ''teamId'' @ ''userId'' @ [dq])) \<and>
   update_sql_in_content overlap_query = ([backtick] @ ''team_iduserId'' @ [dq] @ [backtick], 1) \<and>
   \<not> sublist ''user_id'' (fst (update_sql_in_content overlap_query))"
  using overlap_query_facts by simp

text \<open>
  Claim C1, amended. Every text is assembled from segments and a rest. In the output of
  \<open>update_sql_in_content\<close> the text outside the blocks, and the rest with its unpaired
  backtick, stand as they were, so every occurrence of an old token there is
  unchanged; each block is replaced by what the entries of the table, applied in
  order, make of it, and the count is the sum over the blocks. No old token is left in
  a block that was rewritten. For a block in which no two occurrences of old tokens
  overlap, the result is the block with every occurrence of an old token replaced by
  its new token, and the count for it is the number of occurrences.
\<close>

theorem delimited_mode_rewrites_blocks_only:
  "(segments_ok segs rest \<longrightarrow>
      update_sql_in_content (assemble segs rest) =
        (assemble (map (\<lambda>(outside, block). (outside, fst (sql_loop REPLACEMENTS block 0))) segs)
           rest,
         sum_list (map (\<lambda>(outside, block). snd (sql_loop REPLACEMENTS block 0)) segs))) \<and>
   token_free REPLACEMENTS (fst (sql_loop REPLACEMENTS block 0)) \<and>
   (no_overlap REPLACEMENTS block \<longrightarrow>
      sql_loop REPLACEMENTS block 0 = replace_every REPLACEMENTS block \<and>
      snd (sql_loop REPLACEMENTS block 0) = length (occurrences REPLACEMENTS block)) \<and>
   (\<exists>segs rest. segments_ok segs rest \<and> s = assemble segs rest)"
proof (intro conjI impI)
  assume "segments_ok segs rest"
  then show "update_sql_in_content (assemble segs rest) =
        (assemble (map (\<lambda>(outside, block). (outside, fst (sql_loop REPLACEMENTS block 0))) segs)
           rest,
         sum_list (map (\<lambda>(outside, block). snd (sql_loop REPLACEMENTS block 0)) segs))"
    unfolding update_sql_in_content_def by (rule update_sql_with_assemble)
next
  have "\<not> sublist t (fst (sql_loop REPLACEMENTS block 0))" if "(t, n) \<in> set REPLACEMENTS" for t n
    using separated_result_clean [OF separated_REPLACEMENTS that] .
  then show "token_free REPLACEMENTS (fst (sql_loop REPLACEMENTS block 0))"
    unfolding token_free_def by blast
next
  assume "no_overlap REPLACEMENTS block"
  then have "clean REPLACEMENTS block"
    by (rule no_overlap_clean [OF separated_REPLACEMENTS])
  then show "sql_loop REPLACEMENTS block 0 = replace_every REPLACEMENTS block"
    by (rule sql_loop_replace_every [OF separated_REPLACEMENTS refl])
next
  assume "no_overlap REPLACEMENTS block"
  then have cl: "clean REPLACEMENTS block"
    by (rule no_overlap_clean [OF separated_REPLACEMENTS])
  then have "sql_loop REPLACEMENTS block 0 = replace_every REPLACEMENTS block"
    by (rule sql_loop_replace_every [OF separated_REPLACEMENTS refl])
  then show "snd (sql_loop REPLACEMENTS block 0) = length (occurrences REPLACEMENTS block)"
    using replace_every_counts_occurrences [OF separated_REPLACEMENTS distinct_REPLACEMENTS cl]
    by simp
next
  show "\<exists>segs rest. segments_ok segs rest \<and> s = assemble segs rest"
    by (rule every_text_assembles)
qed

theorem delimited_mode_rewrites_blocks_only_witness:
  "segments_ok sample_segments sample_rest \<and>
   no_overlap REPLACEMENTS (quoted ''teamId'' @ '','' @ quoted ''userId'') \<and>
   assemble sample_segments sample_rest =
     quoted ''teamId'' @ [backtick] @ quoted ''teamId'' @ '','' @ quoted ''userId'' @ [backtick]
       @ '' '' @ quoted ''userId'' @ [backtick] @ quoted ''teamId'' \<and>
   update_sql_in_content (assemble sample_segments sample_rest) =
     (quoted ''teamId'' @ [backtick] @ ''team_id,user_id'' @ [backtick]
       @ '' '' @ quoted ''userId'' @ [backtick] @ quoted ''teamId'', 2) \<and>
   replace_every REPLACEMENTS (quoted ''teamId'' @ '','' @ quoted ''userId'') =
     (''team_id,user_id'', 2)"
proof -
  have a: "segments_ok sample_segments sample_rest"
    by code_simp
  have b: "no_overlap REPLACEMENTS (quoted ''teamId'' @ '','' @ quoted ''userId'')"
    by code_simp
  have c: "sql_loop REPLACEMENTS (quoted ''teamId'' @ '','' @ quoted ''userId'') 0 =
      (''team_id,user_id'', 2)"
    by code_simp
  have d: "assemble sample_segments sample_rest =
     quoted ''teamId'' @ [backtick] @ quoted ''teamId'' @ '','' @ quoted ''userId'' @ [backtick]
       @ '' '' @ quoted ''userId'' @ [backtick] @ quoted ''teamId''"
    by (simp add: sample_segments_def sample_rest_def)
  have e: "update_sql_in_content (assemble sample_segments sample_rest) =
    (assemble (map (\<lambda>(outside, block). (outside, fst (sql_loop REPLACEMENTS block 0)))
        sample_segments) sample_rest,
     sum_list (map (\<lambda>(outside, block). snd (sql_loop REPLACEMENTS block 0)) sample_segments))"
    and f: "sql_loop REPLACEMENTS (quoted ''teamId'' @ '','' @ quoted ''userId'') 0 =
      replace_every REPLACEMENTS (quoted ''teamId'' @ '','' @ quoted ''userId'')"
    using delimited_mode_rewrites_blocks_only
      [of sample_segments sample_rest "quoted ''teamId'' @ '','' @ quoted ''userId''" "[]"] a b
    by simp_all
  have g: "update_sql_in_content (assemble sample_segments sample_rest) =
     (quoted ''teamId'' @ [backtick] @ ''team_id,user_id'' @ [backtick]
       @ '' '' @ quoted ''userId'' @ [backtick] @ quoted ''teamId'', 2)"
    unfolding e using c by (simp add: sample_segments_def sample_rest_def)
  show ?thesis
    using a b d g f c by simp
qed

text \<open>
  Claim C8, as stated: any order of the entries gives the same output. The two tables of
  the repository hold the same entries in two orders, and on the text
  \<^verbatim>\<open>"providerId"createdAt"\<close>, in which two occurrences share a quote character, they
  give two outputs.
\<close>

theorem order_of_entries_counterexample:
  "is_permutation COLUMN_MAPPINGS REPLACEMENTS \<and>
   sql_loop COLUMN_MAPPINGS overlap_text 0 = ([dq] @ ''providerIdcreated_at'', 1) \<and>
   sql_loop REPLACEMENTS overlap_text 0 = (''provider_idcreatedAt'' @ [dq], 1) \<and>
   fst (sql_loop COLUMN_MAPPINGS overlap_text 0) \<noteq> fst (sql_loop REPLACEMENTS overlap_text 0)"
proof -
  have "[dq] @ ''providerIdcreated_at'' \<noteq> ''provider_idcreatedAt'' @ [dq]"
    by code_simp
  then show ?thesis
    using permutation_COLUMN_MAPPINGS overlap_text_results by simp
qed

text \<open>
  Claim C8, amended: for a text in which no two occurrences of old tokens overlap, the
  entries applied in any order give the same text and the same count as the order of
  the script, in the loop of \<open>update_sql_in_content\<close>, in the loop of \<open>update_file\<close>
  and in delimited mode: the text with every occurrence replaced, and the number of
  occurrences.
\<close>

theorem any_order_without_overlap:
  "is_permutation table REPLACEMENTS \<and> no_overlap REPLACEMENTS s \<longrightarrow>
     sql_loop table s 0 = sql_loop REPLACEMENTS s 0 \<and>
     sql_loop table s 0 = replace_every REPLACEMENTS s \<and>
     snd (sql_loop table s 0) = length (occurrences REPLACEMENTS s) \<and>
     fst (update_loop table s 0 w) = fst (update_loop COLUMN_MAPPINGS s 0 w') \<and>
     fst (snd (update_loop table s 0 w)) = fst (snd (update_loop COLUMN_MAPPINGS s 0 w')) \<and>
     update_sql_with table s = update_sql_in_content s"
proof (intro impI)
  assume a: "is_permutation table REPLACEMENTS \<and> no_overlap REPLACEMENTS s"
  then have eq: "set table = set REPLACEMENTS" and no: "no_overlap REPLACEMENTS s"
    using is_permutation_set by blast+
  have cl: "clean REPLACEMENTS s"
    using no by (rule no_overlap_clean [OF separated_REPLACEMENTS])
  have t: "sql_loop table s 0 = replace_every REPLACEMENTS s"
    by (rule sql_loop_replace_every [OF separated_REPLACEMENTS eq cl])
  have r: "sql_loop REPLACEMENTS s 0 = replace_every REPLACEMENTS s"
    by (rule sql_loop_replace_every [OF separated_REPLACEMENTS refl cl])
  have c: "sql_loop COLUMN_MAPPINGS s 0 = replace_every REPLACEMENTS s"
    by (rule sql_loop_replace_every [OF separated_REPLACEMENTS set_COLUMN_MAPPINGS cl])
  have u1: "fst (update_loop table s 0 w) = fst (sql_loop table s 0)"
    "fst (snd (update_loop table s 0 w)) = snd (sql_loop table s 0)"
    by (subst update_loop_sql_loop, simp)+
  have u2: "fst (update_loop COLUMN_MAPPINGS s 0 w') = fst (sql_loop COLUMN_MAPPINGS s 0)"
    "fst (snd (update_loop COLUMN_MAPPINGS s 0 w')) = snd (sql_loop COLUMN_MAPPINGS s 0)"
    by (subst update_loop_sql_loop, simp)+
  have d: "update_sql_with table s = update_sql_in_content s"
    unfolding update_sql_in_content_def
    using no by (rule update_sql_with_any_order [OF separated_REPLACEMENTS eq])
  have n: "snd (replace_every REPLACEMENTS s) = length (occurrences REPLACEMENTS s)"
    by (rule replace_every_counts_occurrences [OF separated_REPLACEMENTS distinct_REPLACEMENTS cl])
  show "sql_loop table s 0 = sql_loop REPLACEMENTS s 0 \<and>
     sql_loop table s 0 = replace_every REPLACEMENTS s \<and>
     snd (sql_loop table s 0) = length (occurrences REPLACEMENTS s) \<and>
     fst (update_loop table s 0 w) = fst (update_loop COLUMN_MAPPINGS s 0 w') \<and>
     fst (snd (update_loop table s 0 w)) = fst (snd (update_loop COLUMN_MAPPINGS s 0 w')) \<and>
     update_sql_with table s = update_sql_in_content s"
    unfolding u1 u2 t r c d n by simp
qed

theorem any_order_without_overlap_witness:
  "is_permutation (rev REPLACEMENTS) REPLACEMENTS \<and> no_overlap REPLACEMENTS apart_text \<and>
   sql_loop (rev REPLACEMENTS) apart_text 0 = (''provider_id,created_at'', 2) \<and>
   sql_loop REPLACEMENTS apart_text 0 = (''provider_id,created_at'', 2)"
proof -
  have p: "is_permutation (rev REPLACEMENTS) REPLACEMENTS"
    by code_simp
  have n: "no_overlap REPLACEMENTS apart_text"
    by code_simp
  have r: "sql_loop REPLACEMENTS apart_text 0 = (''provider_id,created_at'', 2)"
    by code_simp
  show ?thesis
    using p n r any_order_without_overlap [of "rev REPLACEMENTS" apart_text] by simp
qed

end
